theory Spec2Isabelle
  imports Main "HOL-Library.Word" "HOL-Library.Sublist"
begin

unbundle bit_operations_syntax

section \<open>Python values\<close>

text \<open>
  The module \<^verbatim>\<open>0x02-redis_basic/exercise.py\<close> keeps every piece of its state in a Redis
  server. Byte strings are lists of 8-bit characters, Python text is a list of Unicode
  code points.
\<close>

type_synonym bytes = string
type_synonym str = "nat list"

text \<open>An ASCII literal of the source, as text.\<close>

definition lit :: "string \<Rightarrow> str" where
  "lit s = map of_char s"

text \<open>
  The values the program handles: \<^verbatim>\<open>DataType = Union[str, bytes, int, float]\<close> and
  \<^verbatim>\<open>None\<close>. The program never computes with a float, it only hands it to the Redis
  client, which sends \<^verbatim>\<open>repr\<close> of it; a float is therefore given by its \<^verbatim>\<open>repr\<close>.
\<close>

datatype pyval = PNone | PStr str | PBytes bytes | PInt int | PFloat string

datatype error =
    TypeError | ValueError | AttributeError
  | UnicodeEncodeError | UnicodeDecodeError
  | DataError | ConnectionError | ResponseError

subsection \<open>Decimal integers\<close>

fun digits :: "nat \<Rightarrow> string" where
  "digits n = (if n < 10 then [char_of (48 + n)]
               else digits (n div 10) @ [char_of (48 + n mod 10)])"

declare digits.simps [simp del]

text \<open>
  The decimal form of an integer: what the server writes for a counter, and what
  \<^verbatim>\<open>repr(i)\<close>, \<^verbatim>\<open>str(i)\<close> and an f-string give where Python forms them.
\<close>

definition repr_int :: "int \<Rightarrow> string" where
  "repr_int i = (if i < 0 then CHR ''-'' # digits (nat (- i)) else digits (nat i))"

text \<open>
  Python (CPython from 3.11 on, \<^verbatim>\<open>sys.get_int_max_str_digits()\<close>) refuses to turn an
  integer of more than 4300 decimal digits into text: \<^verbatim>\<open>repr\<close> and \<^verbatim>\<open>str\<close> of it, also
  inside a tuple, raise \<^verbatim>\<open>ValueError\<close>. The sign does not count.
\<close>

definition max_str_digits :: nat where
  "max_str_digits = 4300"

definition too_long :: "int \<Rightarrow> bool" where
  "too_long i = (max_str_digits < length (digits (nat \<bar>i\<bar>)))"

definition is_space :: "char \<Rightarrow> bool" where
  "is_space c = (of_char c \<in> {9, 10, 11, 12, 13, 32 :: nat})"

definition is_digit :: "char \<Rightarrow> bool" where
  "is_digit c = (48 \<le> (of_char c :: nat) \<and> (of_char c :: nat) \<le> 57)"

definition strip :: "string \<Rightarrow> string" where
  "strip s = rev (dropWhile is_space (rev (dropWhile is_space s)))"

text \<open>
  The digits of a base-10 literal: single underscores are allowed between digits only.
  The flag says that the previous character was a digit.
\<close>

fun lit_value :: "bool \<Rightarrow> nat \<Rightarrow> string \<Rightarrow> nat option" where
  "lit_value p acc [] = (if p then Some acc else None)"
| "lit_value p acc (c # cs) =
     (if is_digit c then lit_value True (10 * acc + (of_char c - 48)) cs
      else if c = CHR ''_'' \<and> p then lit_value False acc cs
      else None)"

text \<open>
  \<^verbatim>\<open>int(b)\<close> of a byte string, in base 10: white space around the literal is dropped,
  a sign may precede the digits. \<open>None\<close> is the \<^verbatim>\<open>ValueError\<close>. (The bound that recent
  interpreters put on the number of digits is left out.)
\<close>

definition int_literal :: "bytes \<Rightarrow> int option" where
  "int_literal b =
     (case strip b of
        [] \<Rightarrow> None
      | c # cs \<Rightarrow>
          if c = CHR ''-'' then map_option (\<lambda>n. - int n) (lit_value False 0 cs)
          else if c = CHR ''+'' then map_option int (lit_value False 0 cs)
          else map_option int (lit_value False 0 (c # cs)))"

subsection \<open>UTF-8\<close>

text \<open>
  \<^verbatim>\<open>s.encode('utf-8')\<close>, strict: a surrogate has no encoding. \<open>None\<close> is the
  \<^verbatim>\<open>UnicodeEncodeError\<close>.
\<close>

definition utf8_char :: "nat \<Rightarrow> bytes option" where
  "utf8_char c =
     (if c < 0x80 then Some [char_of c]
      else if c < 0x800 then Some [char_of (0xC0 + c div 64), char_of (0x80 + c mod 64)]
      else if c < 0x10000 then
        (if 0xD800 \<le> c \<and> c < 0xE000 then None
         else Some [char_of (0xE0 + c div 4096), char_of (0x80 + c div 64 mod 64),
                    char_of (0x80 + c mod 64)])
      else if c < 0x110000 then
        Some [char_of (0xF0 + c div 262144), char_of (0x80 + c div 4096 mod 64),
              char_of (0x80 + c div 64 mod 64), char_of (0x80 + c mod 64)]
      else None)"

fun utf8_encode :: "str \<Rightarrow> error + bytes" where
  "utf8_encode [] = Inr []"
| "utf8_encode (c # cs) =
     (case utf8_char c of
        None \<Rightarrow> Inl UnicodeEncodeError
      | Some bs \<Rightarrow> (case utf8_encode cs of Inl e \<Rightarrow> Inl e | Inr r \<Rightarrow> Inr (bs @ r)))"

text \<open>A continuation byte \<^verbatim>\<open>10xxxxxx\<close>.\<close>

definition cont :: "char \<Rightarrow> bool" where
  "cont b = (0x80 \<le> (of_char b :: nat) \<and> (of_char b :: nat) < 0xC0)"

definition low6 :: "char \<Rightarrow> nat" where
  "low6 b = of_char b - 0x80"

text \<open>
  \<^verbatim>\<open>b.decode('utf-8')\<close>, strict: overlong forms, surrogates and code points beyond
  \<^verbatim>\<open>U+10FFFF\<close> are refused. The first component is the number of bytes read.
\<close>

definition utf8_first :: "bytes \<Rightarrow> (nat \<times> nat) option" where
  "utf8_first bs =
     (case bs of
        [] \<Rightarrow> None
      | b0 # r0 \<Rightarrow>
          let n = (of_char b0 :: nat) in
          if n < 0x80 then Some (1, n)
          else if 0xC2 \<le> n \<and> n < 0xE0 then
            (case r0 of
               b1 # _ \<Rightarrow> if cont b1 then Some (2, (n - 0xC0) * 64 + low6 b1) else None
             | _ \<Rightarrow> None)
          else if 0xE0 \<le> n \<and> n < 0xF0 then
            (case r0 of
               b1 # b2 # _ \<Rightarrow>
                 let c = (n - 0xE0) * 4096 + low6 b1 * 64 + low6 b2 in
                 if cont b1 \<and> cont b2 \<and> 0x800 \<le> c \<and> \<not> (0xD800 \<le> c \<and> c < 0xE000)
                 then Some (3, c) else None
             | _ \<Rightarrow> None)
          else if 0xF0 \<le> n \<and> n < 0xF5 then
            (case r0 of
               b1 # b2 # b3 # _ \<Rightarrow>
                 let c = (n - 0xF0) * 262144 + low6 b1 * 4096 + low6 b2 * 64 + low6 b3 in
                 if cont b1 \<and> cont b2 \<and> cont b3 \<and> 0x10000 \<le> c \<and> c < 0x110000
                 then Some (4, c) else None
             | _ \<Rightarrow> None)
          else None)"

function utf8_decode :: "bytes \<Rightarrow> error + str" where
  "utf8_decode bs =
     (if bs = [] then Inr []
      else case utf8_first bs of
             None \<Rightarrow> Inl UnicodeDecodeError
           | Some (k, c) \<Rightarrow>
               (case utf8_decode (drop k bs) of Inl e \<Rightarrow> Inl e | Inr r \<Rightarrow> Inr (c # r)))"
  by pat_completeness auto
termination
  by (relation "measure length")
     (auto simp: utf8_first_def Let_def split: list.splits if_splits)

declare utf8_decode.simps [simp del]

subsection \<open>\<^verbatim>\<open>repr\<close> and \<^verbatim>\<open>str\<close>\<close>

definition hexdigit :: "nat \<Rightarrow> nat" where
  "hexdigit n = (if n < 10 then 48 + n else 87 + n)"

text \<open>\<^verbatim>\<open>'%0wx' % n\<close>: \<open>w\<close> lower-case hexadecimal digits.\<close>

definition hex_fixed :: "nat \<Rightarrow> nat \<Rightarrow> str" where
  "hex_fixed w n = map (\<lambda>i. hexdigit (n div 16 ^ (w - 1 - i) mod 16)) [0..<w]"

text \<open>
  Both \<^verbatim>\<open>repr\<close> of text and of bytes quote with \<^verbatim>\<open>'\<close>, and with \<^verbatim>\<open>"\<close> when the
  value holds a \<^verbatim>\<open>'\<close> and no \<^verbatim>\<open>"\<close>.
\<close>

definition quote_of :: "nat list \<Rightarrow> nat" where
  "quote_of s = (if 39 \<in> set s \<and> 34 \<notin> set s then 34 else 39)"

definition esc_byte :: "nat \<Rightarrow> nat \<Rightarrow> str" where
  "esc_byte q c =
     (if c = q \<or> c = 92 then [92, c]
      else if c = 9 then [92, 116]
      else if c = 10 then [92, 110]
      else if c = 13 then [92, 114]
      else if c < 32 \<or> 127 \<le> c then [92, 120] @ hex_fixed 2 c
      else [c])"

text \<open>\<^verbatim>\<open>repr(b)\<close> of a byte string, which is also \<^verbatim>\<open>str(b)\<close>.\<close>

definition bytes_repr :: "bytes \<Rightarrow> str" where
  "bytes_repr b =
     (let s = map of_char b; q = quote_of s
      in [98, q] @ concat (map (esc_byte q) s) @ [q])"

text \<open>
  \<^verbatim>\<open>repr\<close> of text copies a printable character and escapes the others. Which
  characters beyond ASCII are printable is a table of the Unicode database, the
  parameter \<open>printable\<close>.
\<close>

definition esc_char :: "(nat \<Rightarrow> bool) \<Rightarrow> nat \<Rightarrow> nat \<Rightarrow> str" where
  "esc_char printable q c =
     (if c = q \<or> c = 92 then [92, c]
      else if c = 9 then [92, 116]
      else if c = 10 then [92, 110]
      else if c = 13 then [92, 114]
      else if c < 32 \<or> c = 127 then [92, 120] @ hex_fixed 2 c
      else if c < 127 then [c]
      else if printable c then [c]
      else if c \<le> 0xFF then [92, 120] @ hex_fixed 2 c
      else if c \<le> 0xFFFF then [92, 117] @ hex_fixed 4 c
      else [92, 85] @ hex_fixed 8 c)"

definition str_repr :: "(nat \<Rightarrow> bool) \<Rightarrow> str \<Rightarrow> str" where
  "str_repr printable s =
     (let q = quote_of s in [q] @ concat (map (esc_char printable q) s) @ [q])"

fun repr :: "(nat \<Rightarrow> bool) \<Rightarrow> pyval \<Rightarrow> str" where
  "repr printable PNone = lit ''None''"
| "repr printable (PStr s) = str_repr printable s"
| "repr printable (PBytes b) = bytes_repr b"
| "repr printable (PInt i) = lit (repr_int i)"
| "repr printable (PFloat r) = lit r"

fun join :: "str \<Rightarrow> str list \<Rightarrow> str" where
  "join sep [] = []"
| "join sep [x] = x"
| "join sep (x # y # ys) = x @ sep @ join sep (y # ys)"

text \<open>The text of a tuple of values, each by its \<^verbatim>\<open>repr\<close>.\<close>

definition str_tuple :: "(nat \<Rightarrow> bool) \<Rightarrow> pyval list \<Rightarrow> str" where
  "str_tuple printable args =
     (case args of
        [x] \<Rightarrow> lit ''('' @ repr printable x @ lit '',)''
      | _ \<Rightarrow> lit ''('' @ join (lit '', '') (map (repr printable) args) @ lit '')'')"

text \<open>
  \<^verbatim>\<open>str(args)\<close> of the tuple of positional arguments: the text above, unless an
  argument is an integer Python refuses to write out.
\<close>

fun renderable :: "pyval \<Rightarrow> bool" where
  "renderable (PInt i) = (\<not> too_long i)"
| "renderable _ = True"

definition str_args :: "(nat \<Rightarrow> bool) \<Rightarrow> pyval list \<Rightarrow> error + str" where
  "str_args printable args =
     (if list_all renderable args then Inr (str_tuple printable args) else Inl ValueError)"

text \<open>
  The two decoders the class passes to \<^verbatim>\<open>get\<close>, applied to what the Redis client
  returns: a byte string, or \<^verbatim>\<open>None\<close> for an absent key.
\<close>

definition py_str :: "bytes option \<Rightarrow> error + pyval" where
  "py_str data =
     (case data of None \<Rightarrow> Inr (PStr (lit ''None'')) | Some b \<Rightarrow> Inr (PStr (bytes_repr b)))"

definition py_int :: "bytes option \<Rightarrow> error + pyval" where
  "py_int data =
     (case data of
        None \<Rightarrow> Inl TypeError
      | Some b \<Rightarrow> (case int_literal b of None \<Rightarrow> Inl ValueError | Some i \<Rightarrow> Inr (PInt i)))"

subsection \<open>\<^verbatim>\<open>uuid4\<close>\<close>

text \<open>
  \<^verbatim>\<open>uuid4()\<close> draws 128 random bits, the argument here, and sets the variant and the
  version; \<^verbatim>\<open>str\<close> of the result is 32 hexadecimal digits in five groups.
\<close>

definition uuid4 :: "128 word \<Rightarrow> 128 word" where
  "uuid4 r =
     (((r AND NOT (push_bit 48 0xC000)) OR push_bit 48 0x8000)
         AND NOT (push_bit 64 0xF000)) OR push_bit 76 4"

definition str_uuid :: "128 word \<Rightarrow> str" where
  "str_uuid u =
     (let h = hex_fixed 32 (unat u)
      in take 8 h @ [45] @ take 4 (drop 8 h) @ [45] @ take 4 (drop 12 h) @ [45]
         @ take 4 (drop 16 h) @ [45] @ drop 20 h)"

section \<open>The Redis client\<close>

text \<open>
  Modelled from the spec: the Redis client library and the server behind it are not part
  of the repository. Section 6 of the specification gives the contract of the commands
  the module uses (set, get, atomic increment creating the key at 1, existence check,
  append to a list, read of a list range, clearing everything); every command is one
  blocking round trip that may fail. A key holds a byte string or a list of byte
  strings, and a command applied to a key of the other kind is refused. The counter has
  no upper bound.
\<close>

datatype rval = RStr bytes | RList "bytes list"

datatype command =
    FLUSHDB | SET bytes bytes | GET bytes | INCR bytes | EXISTS bytes
  | RPUSH bytes bytes | LRANGE bytes int int

text \<open>
  A connection: the contents of the database, the outcome of the round trips to come
  (\<open>True\<close>: the round trip fails; past the end of the list they all succeed), and the
  commands sent so far, oldest first.
\<close>

record conn =
  db :: "bytes \<rightharpoonup> rval"
  link :: "bool list"
  wire :: "command list"

text \<open>One round trip: the command is sent, and the answer arrives unless the link fails.\<close>

definition send :: "command \<Rightarrow> conn \<Rightarrow> bool \<times> conn" where
  "send cmd c =
     (case link c of
        [] \<Rightarrow> (True, c\<lparr>wire := wire c @ [cmd]\<rparr>)
      | down # rest \<Rightarrow> (\<not> down, c\<lparr>link := rest, wire := wire c @ [cmd]\<rparr>))"

text \<open>
  What the client sends for a value: bytes as they are, text in UTF-8, a number by
  \<^verbatim>\<open>repr(value).encode()\<close>, which raises for an integer Python refuses to write out.
\<close>

fun encode :: "pyval \<Rightarrow> error + bytes" where
  "encode (PBytes b) = Inr b"
| "encode (PStr s) = utf8_encode s"
| "encode (PInt i) = (if too_long i then Inl ValueError else Inr (repr_int i))"
| "encode (PFloat r) = Inr r"
| "encode PNone = Inl DataError"

definition redis_flushdb :: "conn \<Rightarrow> (error + unit) \<times> conn" where
  "redis_flushdb c =
     (case send FLUSHDB c of
        (False, c') \<Rightarrow> (Inl ConnectionError, c')
      | (True, c') \<Rightarrow> (Inr (), c'\<lparr>db := Map.empty\<rparr>))"

definition redis_set :: "str \<Rightarrow> pyval \<Rightarrow> conn \<Rightarrow> (error + unit) \<times> conn" where
  "redis_set key val c =
     (case utf8_encode key of
        Inl e \<Rightarrow> (Inl e, c)
      | Inr k \<Rightarrow>
          (case encode val of
             Inl e \<Rightarrow> (Inl e, c)
           | Inr v \<Rightarrow>
               (case send (SET k v) c of
                  (False, c') \<Rightarrow> (Inl ConnectionError, c')
                | (True, c') \<Rightarrow> (Inr (), c'\<lparr>db := (db c')(k \<mapsto> RStr v)\<rparr>))))"

definition redis_get :: "str \<Rightarrow> conn \<Rightarrow> (error + bytes option) \<times> conn" where
  "redis_get key c =
     (case utf8_encode key of
        Inl e \<Rightarrow> (Inl e, c)
      | Inr k \<Rightarrow>
          (case send (GET k) c of
             (False, c') \<Rightarrow> (Inl ConnectionError, c')
           | (True, c') \<Rightarrow>
               (case db c' k of
                  None \<Rightarrow> (Inr None, c')
                | Some (RStr v) \<Rightarrow> (Inr (Some v), c')
                | Some (RList _) \<Rightarrow> (Inl ResponseError, c'))))"

text \<open>The integer a byte string holds for the server: its decimal form and nothing else.\<close>

definition stored_int :: "bytes \<Rightarrow> int option" where
  "stored_int b =
     (case int_literal b of
        None \<Rightarrow> None
      | Some i \<Rightarrow> if repr_int i = b then Some i else None)"

definition redis_incr :: "str \<Rightarrow> conn \<Rightarrow> (error + int) \<times> conn" where
  "redis_incr key c =
     (case utf8_encode key of
        Inl e \<Rightarrow> (Inl e, c)
      | Inr k \<Rightarrow>
          (case send (INCR k) c of
             (False, c') \<Rightarrow> (Inl ConnectionError, c')
           | (True, c') \<Rightarrow>
               (case db c' k of
                  None \<Rightarrow> (Inr 1, c'\<lparr>db := (db c')(k \<mapsto> RStr (repr_int 1))\<rparr>)
                | Some (RStr v) \<Rightarrow>
                    (case stored_int v of
                       None \<Rightarrow> (Inl ResponseError, c')
                     | Some i \<Rightarrow> (Inr (i + 1), c'\<lparr>db := (db c')(k \<mapsto> RStr (repr_int (i + 1)))\<rparr>))
                | Some (RList _) \<Rightarrow> (Inl ResponseError, c'))))"

definition redis_exists :: "str \<Rightarrow> conn \<Rightarrow> (error + int) \<times> conn" where
  "redis_exists key c =
     (case utf8_encode key of
        Inl e \<Rightarrow> (Inl e, c)
      | Inr k \<Rightarrow>
          (case send (EXISTS k) c of
             (False, c') \<Rightarrow> (Inl ConnectionError, c')
           | (True, c') \<Rightarrow> (Inr (if db c' k = None then 0 else 1), c')))"

definition redis_rpush :: "str \<Rightarrow> pyval \<Rightarrow> conn \<Rightarrow> (error + int) \<times> conn" where
  "redis_rpush key val c =
     (case utf8_encode key of
        Inl e \<Rightarrow> (Inl e, c)
      | Inr k \<Rightarrow>
          (case encode val of
             Inl e \<Rightarrow> (Inl e, c)
           | Inr v \<Rightarrow>
               (case send (RPUSH k v) c of
                  (False, c') \<Rightarrow> (Inl ConnectionError, c')
                | (True, c') \<Rightarrow>
                    (case db c' k of
                       None \<Rightarrow> (Inr 1, c'\<lparr>db := (db c')(k \<mapsto> RList [v])\<rparr>)
                     | Some (RList xs) \<Rightarrow>
                         (Inr (int (length xs) + 1), c'\<lparr>db := (db c')(k \<mapsto> RList (xs @ [v]))\<rparr>)
                     | Some (RStr _) \<Rightarrow> (Inl ResponseError, c')))))"

text \<open>
  The elements from index \<open>start\<close> to index \<open>stop\<close>, both included; a negative index
  counts from the end of the list.
\<close>

definition lrange :: "int \<Rightarrow> int \<Rightarrow> 'a list \<Rightarrow> 'a list" where
  "lrange start stop xs =
     (let n = int (length xs);
          a = (if start < 0 then max 0 (n + start) else start);
          b = (if stop < 0 then n + stop else min stop (n - 1))
      in if a > b then [] else take (nat (b + 1 - a)) (drop (nat a) xs))"

definition redis_lrange :: "str \<Rightarrow> int \<Rightarrow> int \<Rightarrow> conn \<Rightarrow> (error + bytes list) \<times> conn" where
  "redis_lrange key start stop c =
     (case utf8_encode key of
        Inl e \<Rightarrow> (Inl e, c)
      | Inr k \<Rightarrow>
          (case send (LRANGE k start stop) c of
             (False, c') \<Rightarrow> (Inl ConnectionError, c')
           | (True, c') \<Rightarrow>
               (case db c' k of
                  None \<Rightarrow> (Inr [], c')
                | Some (RList xs) \<Rightarrow> (Inr (lrange start stop xs), c')
                | Some (RStr _) \<Rightarrow> (Inl ResponseError, c'))))"

section \<open>The module \<^verbatim>\<open>exercise.py\<close>\<close>

text \<open>
  The attribute \<^verbatim>\<open>_redis\<close> of an object: a \<^verbatim>\<open>redis.Redis\<close> client, or anything else
  (the test \<^verbatim>\<open>isinstance(self._redis, redis.Redis)\<close> tells them apart).
\<close>

datatype handle = Redis conn | NotRedis

record Cache =
  redis :: handle

type_synonym result = "error + pyval"

text \<open>
  A method of the class: its \<^verbatim>\<open>__qualname__\<close>, which \<^verbatim>\<open>functools.wraps\<close> copies to
  a wrapper, and its body, applied to the receiver, the positional arguments and the
  keyword arguments.
\<close>

record meth =
  qualname :: str
  body :: "Cache \<Rightarrow> pyval list \<Rightarrow> (str \<times> pyval) list \<Rightarrow> result \<times> Cache"

text \<open>
  \<^verbatim>\<open>count_calls\<close>: the wrapper takes \<^verbatim>\<open>*args, **kwargs\<close>, increments the counter when
  the handle is a Redis client, and calls the method.
\<close>

definition count_calls :: "meth \<Rightarrow> meth" where
  "count_calls method =
     \<lparr>qualname = qualname method,
      body = (\<lambda>self args kwargs.
        case redis self of
          Redis c \<Rightarrow>
            (case redis_incr (qualname method) c of
               (Inl e, c') \<Rightarrow> (Inl e, self\<lparr>redis := Redis c'\<rparr>)
             | (Inr _, c') \<Rightarrow> body method (self\<lparr>redis := Redis c'\<rparr>) args kwargs)
        | NotRedis \<Rightarrow> body method self args kwargs)\<rparr>"

text \<open>
  \<^verbatim>\<open>call_history\<close>: the wrapper takes \<^verbatim>\<open>*args\<close> only, so a keyword argument is a
  \<^verbatim>\<open>TypeError\<close>. After the call of the method the attribute \<^verbatim>\<open>_redis\<close> is read again.
\<close>

definition call_history :: "(nat \<Rightarrow> bool) \<Rightarrow> meth \<Rightarrow> meth" where
  "call_history printable method =
     \<lparr>qualname = qualname method,
      body = (\<lambda>self args kwargs.
        if kwargs \<noteq> [] then (Inl TypeError, self)
        else
          let in_key = qualname method @ lit '':inputs'';
              out_key = qualname method @ lit '':outputs''
          in (case redis self of
               Redis c \<Rightarrow>
                 (case str_args printable args of
                    Inl e \<Rightarrow> (Inl e, self)
                  | Inr s \<Rightarrow>
                      (case redis_rpush in_key (PStr s) c of
                         (Inl e, c1) \<Rightarrow> (Inl e, self\<lparr>redis := Redis c1\<rparr>)
                       | (Inr _, c1) \<Rightarrow>
                           (case body method (self\<lparr>redis := Redis c1\<rparr>) args [] of
                              (Inl e, self2) \<Rightarrow> (Inl e, self2)
                            | (Inr output, self2) \<Rightarrow>
                                (case redis self2 of
                                   Redis c2 \<Rightarrow>
                                     (case redis_rpush out_key output c2 of
                                        (Inl e, c3) \<Rightarrow> (Inl e, self2\<lparr>redis := Redis c3\<rparr>)
                                      | (Inr _, c3) \<Rightarrow> (Inr output, self2\<lparr>redis := Redis c3\<rparr>))
                                 | NotRedis \<Rightarrow> (Inl AttributeError, self2)))))
             | NotRedis \<Rightarrow> (Inr PNone, self)))\<rparr>"

text \<open>
  What \<^verbatim>\<open>replay\<close> is given: \<^verbatim>\<open>None\<close>, a callable without \<^verbatim>\<open>__self__\<close> (a plain
  function), or a bound method, with the attribute \<^verbatim>\<open>_redis\<close> of its receiver if the
  receiver has one, and its \<^verbatim>\<open>__qualname__\<close>.
\<close>

datatype method_ref = NoMethod | Function str | BoundMethod "handle option" str

text \<open>The loop of \<^verbatim>\<open>replay\<close> over \<^verbatim>\<open>zip(inputs, outputs)\<close>: the lines printed, and how it ended.\<close>

fun replay_loop :: "str \<Rightarrow> (bytes \<times> bytes) list \<Rightarrow> (error + unit) \<times> str list" where
  "replay_loop name [] = (Inr (), [])"
| "replay_loop name ((i, o') # rest) =
     (case utf8_decode i of
        Inl e \<Rightarrow> (Inl e, [])
      | Inr di \<Rightarrow>
          (case utf8_decode o' of
             Inl e \<Rightarrow> (Inl e, [])
           | Inr do \<Rightarrow>
               (case replay_loop name rest of
                  (r, ls) \<Rightarrow> (r, (name @ lit ''(*'' @ di @ lit '') -> '' @ do) # ls))))"

text \<open>\<^verbatim>\<open>replay\<close>: how it ended and the lines it printed.\<close>

definition replay :: "method_ref \<Rightarrow> (error + unit) \<times> str list" where
  "replay method =
     (case method of
        NoMethod \<Rightarrow> (Inr (), [])
      | Function _ \<Rightarrow> (Inr (), [])
      | BoundMethod attr name \<Rightarrow>
          (case (case attr of None \<Rightarrow> NotRedis | Some h \<Rightarrow> h) of
             NotRedis \<Rightarrow> (Inr (), [])
           | Redis r \<Rightarrow>
               (case redis_exists name r of
                  (Inl e, _) \<Rightarrow> (Inl e, [])
                | (Inr ex, r1) \<Rightarrow>
                    (case (if ex > 0
                           then (case redis_get name r1 of
                                   (Inl e, r2) \<Rightarrow> (Inl e, r2)
                                 | (Inr data, r2) \<Rightarrow>
                                     (case py_int data of
                                        Inr (PInt n) \<Rightarrow> (Inr n, r2)
                                      | Inr _ \<Rightarrow> (Inl TypeError, r2)
                                      | Inl e \<Rightarrow> (Inl e, r2)))
                           else (Inr 0, r1)) of
                       (Inl e, _) \<Rightarrow> (Inl e, [])
                     | (Inr count, r2) \<Rightarrow>
                         if count = 0 then (Inr (), [])
                         else
                           (let header = name @ lit '' was called '' @ lit (repr_int count)
                                           @ lit '' times:''
                            in (case redis_lrange (name @ lit '':inputs'') 0 (- 1) r2 of
                                  (Inl e, _) \<Rightarrow> (Inl e, [header])
                                | (Inr inputs, r3) \<Rightarrow>
                                    (case redis_lrange (name @ lit '':outputs'') 0 (- 1) r3 of
                                       (Inl e, _) \<Rightarrow> (Inl e, [header])
                                     | (Inr outputs, _) \<Rightarrow>
                                         (case replay_loop name (zip inputs outputs) of
                                            (res, ls) \<Rightarrow> (res, header # ls)))))))))"

text \<open>\<^verbatim>\<open>Cache.__init__\<close>: a client of the server, and the database flushed.\<close>

definition Cache_init :: "conn \<Rightarrow> error + Cache" where
  "Cache_init server =
     (case redis_flushdb server of
        (Inl e, _) \<Rightarrow> Inl e
      | (Inr _, c) \<Rightarrow> Inr \<lparr>redis = Redis c\<rparr>)"

text \<open>
  The undecorated \<^verbatim>\<open>store(self, data)\<close>. The first argument is the 128 random bits
  \<^verbatim>\<open>uuid4\<close> draws. Any other number of arguments is a \<^verbatim>\<open>TypeError\<close>, and so is a call
  on a handle without a \<^verbatim>\<open>set\<close> method.
\<close>

definition store :: "128 word \<Rightarrow> meth" where
  "store rnd =
     \<lparr>qualname = lit ''Cache.store'',
      body = (\<lambda>self args kwargs.
        case (if kwargs = [] then (case args of [d] \<Rightarrow> Some d | _ \<Rightarrow> None)
              else (case (args, kwargs) of
                      ([], [(n, d)]) \<Rightarrow> if n = lit ''data'' then Some d else None
                    | _ \<Rightarrow> None)) of
          None \<Rightarrow> (Inl TypeError, self)
        | Some data \<Rightarrow>
            (let key = str_uuid (uuid4 rnd)
             in (case redis self of
                   NotRedis \<Rightarrow> (Inl AttributeError, self)
                 | Redis c \<Rightarrow>
                     (case redis_set key data c of
                        (Inl e, c') \<Rightarrow> (Inl e, self\<lparr>redis := Redis c'\<rparr>)
                      | (Inr _, c') \<Rightarrow> (Inr (PStr key), self\<lparr>redis := Redis c'\<rparr>)))))\<rparr>"

text \<open>\<^verbatim>\<open>Cache.store\<close> as the class has it: \<^verbatim>\<open>@count_calls\<close> over \<^verbatim>\<open>@call_history\<close>.\<close>

definition Cache_store ::
  "(nat \<Rightarrow> bool) \<Rightarrow> 128 word \<Rightarrow> Cache \<Rightarrow> pyval list \<Rightarrow> (str \<times> pyval) list \<Rightarrow> result \<times> Cache" where
  "Cache_store printable rnd = body (count_calls (call_history printable (store rnd)))"

text \<open>\<^verbatim>\<open>Cache.get\<close>: \<open>method\<close> is the optional decoder.\<close>

definition Cache_get ::
  "Cache \<Rightarrow> str \<Rightarrow> (bytes option \<Rightarrow> result) option \<Rightarrow> result \<times> Cache" where
  "Cache_get self key method =
     (case redis self of
        NotRedis \<Rightarrow> (Inl AttributeError, self)
      | Redis c \<Rightarrow>
          (case redis_get key c of
             (Inl e, c') \<Rightarrow> (Inl e, self\<lparr>redis := Redis c'\<rparr>)
           | (Inr data, c') \<Rightarrow>
               (case method of
                  Some m \<Rightarrow> (m data, self\<lparr>redis := Redis c'\<rparr>)
                | None \<Rightarrow>
                    ((case data of None \<Rightarrow> Inr PNone | Some b \<Rightarrow> Inr (PBytes b)),
                     self\<lparr>redis := Redis c'\<rparr>))))"

definition get_str :: "Cache \<Rightarrow> str \<Rightarrow> result \<times> Cache" where
  "get_str self key = Cache_get self key (Some py_str)"

definition get_int :: "Cache \<Rightarrow> str \<Rightarrow> result \<times> Cache" where
  "get_int self key = Cache_get self key (Some py_int)"

section \<open>Calls and what they leave in the store\<close>

text \<open>
  One call \<^verbatim>\<open>cache.store(*positional, **named)\<close> as its caller and its environment
  determine it: the arguments, the random bits \<^verbatim>\<open>uuid4\<close> draws during the call, and the
  outcome of the call's successive round trips.
\<close>

record invocation =
  random :: "128 word"
  outages :: "bool list"
  positional :: "pyval list"
  named :: "(str \<times> pyval) list"

text \<open>The next round trip succeeds.\<close>

definition up :: "bool list \<Rightarrow> bool" where
  "up l = (case l of [] \<Rightarrow> True | down # _ \<Rightarrow> \<not> down)"

definition on_link :: "bool list \<Rightarrow> Cache \<Rightarrow> Cache" where
  "on_link l self =
     (case redis self of
        Redis c \<Rightarrow> self\<lparr>redis := Redis (c\<lparr>link := l\<rparr>)\<rparr>
      | NotRedis \<Rightarrow> self)"

definition invoke :: "(nat \<Rightarrow> bool) \<Rightarrow> Cache \<Rightarrow> invocation \<Rightarrow> result \<times> Cache" where
  "invoke printable self i =
     Cache_store printable (random i) (on_link (outages i) self) (positional i) (named i)"

text \<open>Consecutive calls on one cache: what each returned or raised, and the cache afterwards.\<close>

fun invoke_all :: "(nat \<Rightarrow> bool) \<Rightarrow> Cache \<Rightarrow> invocation list \<Rightarrow> result list \<times> Cache" where
  "invoke_all printable self [] = ([], self)"
| "invoke_all printable self (i # rest) =
     (case invoke printable self i of
        (r, self1) \<Rightarrow>
          (case invoke_all printable self1 rest of (rs, self2) \<Rightarrow> (r # rs, self2)))"

definition database :: "Cache \<Rightarrow> bytes \<rightharpoonup> rval" where
  "database self = (case redis self of Redis c \<Rightarrow> db c | NotRedis \<Rightarrow> Map.empty)"

text \<open>
  The call counter under a key as \<^verbatim>\<open>replay\<close> reads it: zero for an absent key, else
  \<^verbatim>\<open>int\<close> of the value.
\<close>

definition counter :: "(bytes \<rightharpoonup> rval) \<Rightarrow> bytes \<Rightarrow> int option" where
  "counter d k =
     (case d k of
        None \<Rightarrow> Some 0
      | Some (RStr b) \<Rightarrow> int_literal b
      | Some (RList _) \<Rightarrow> None)"

text \<open>The list under a key as \<^verbatim>\<open>lrange(key, 0, -1)\<close> reads it.\<close>

definition history :: "(bytes \<rightharpoonup> rval) \<Rightarrow> bytes \<Rightarrow> bytes list option" where
  "history d k =
     (case d k of
        None \<Rightarrow> Some []
      | Some (RList xs) \<Rightarrow> Some xs
      | Some (RStr _) \<Rightarrow> None)"

text \<open>The three keys of \<^verbatim>\<open>Cache.store\<close> hold what the decorators can work with.\<close>

definition recordable :: "(bytes \<rightharpoonup> rval) \<Rightarrow> bool" where
  "recordable d =
     ((case d ''Cache.store'' of
         None \<Rightarrow> True
       | Some (RStr b) \<Rightarrow> stored_int b \<noteq> None
       | Some (RList _) \<Rightarrow> False)
      \<and> history d ''Cache.store:inputs'' \<noteq> None
      \<and> history d ''Cache.store:outputs'' \<noteq> None)"

text \<open>
  The values \<^verbatim>\<open>store\<close> can store: bytes, floats, integers of at most 4300 digits, and
  text in which every character is a Unicode scalar value (no lone surrogate).
\<close>

definition scalar :: "nat \<Rightarrow> bool" where
  "scalar c = (c < 0xD800 \<or> (0xE000 \<le> c \<and> c < 0x110000))"

fun storable :: "pyval \<Rightarrow> bool" where
  "storable PNone = False"
| "storable (PStr s) = list_all scalar s"
| "storable (PBytes b) = True"
| "storable (PInt i) = (\<not> too_long i)"
| "storable (PFloat r) = True"

text \<open>The line \<^verbatim>\<open>replay\<close> is to print for a call that returned.\<close>

definition call_line :: "(nat \<Rightarrow> bool) \<Rightarrow> invocation \<Rightarrow> str" where
  "call_line printable i =
     lit ''Cache.store(*'' @ str_tuple printable (positional i) @ lit '') -> ''
       @ str_uuid (uuid4 (random i))"

section \<open>Notions for the proofs\<close>

text \<open>The connection after one more round trip carrying the command.\<close>

definition sent :: "command \<Rightarrow> conn \<Rightarrow> conn" where
  "sent cmd c = c\<lparr>link := tl (link c), wire := wire c @ [cmd]\<rparr>"

definition with_conn :: "Cache \<Rightarrow> conn \<Rightarrow> Cache" where
  "with_conn self c = self\<lparr>redis := Redis c\<rparr>"

text \<open>The key \<^verbatim>\<open>store\<close> generates, as the bytes sent to the server.\<close>

definition key_bytes :: "128 word \<Rightarrow> bytes" where
  "key_bytes r = map char_of (str_uuid (uuid4 r))"


text \<open>What the counter key holds after \<open>m\<close> increments of an absent key.\<close>

definition tally :: "nat \<Rightarrow> rval option" where
  "tally m = (if m = 0 then None else Some (RStr (repr_int (int m))))"

section \<open>Lemmas\<close>

subsection \<open>Decimal integers\<close>

text \<open>\<^verbatim>\<open>int\<close> reads back what \<^verbatim>\<open>repr\<close> writes, and so does the server.\<close>

lemma digits_nonempty: "digits n \<noteq> []"
  by (subst digits.simps) simp

lemma digits_are_digits: "c \<in> set (digits n) \<Longrightarrow> is_digit c"
proof (induction n rule: digits.induct)
  case (1 n)
  show ?case
  proof (cases "n < 10")
    case True
    with "1.prems" show ?thesis
      by (subst (asm) digits.simps) (simp add: is_digit_def)
  next
    case False
    have m: "n mod 10 < 10" by simp
    from False "1.prems" have "c \<in> set (digits (n div 10)) \<or> c = char_of (48 + n mod 10)"
      by (subst (asm) digits.simps) auto
    then show ?thesis
    proof
      assume "c \<in> set (digits (n div 10))"
      with False "1.IH" show ?thesis by simp
    next
      assume "c = char_of (48 + n mod 10)"
      with m show ?thesis by (simp add: is_digit_def)
    qed
  qed
qed

lemma lit_value_digits:
  "lit_value p acc (digits n @ cs) = lit_value True (acc * 10 ^ length (digits n) + n) cs"
proof (induction n arbitrary: p acc cs rule: digits.induct)
  case (1 n)
  show ?case
  proof (cases "n < 10")
    case True
    then show ?thesis
      by (subst (1 2) digits.simps) (simp add: is_digit_def mult.commute)
  next
    case False
    have m: "n mod 10 < 10" by simp
    have d: "digits n = digits (n div 10) @ [char_of (48 + n mod 10)]"
      using False by (subst digits.simps) simp
    have "lit_value p acc (digits n @ cs)
          = lit_value True (acc * 10 ^ length (digits (n div 10)) + n div 10)
              (char_of (48 + n mod 10) # cs)"
      using "1.IH" [OF False] by (simp add: d)
    also have "\<dots> = lit_value True
          (10 * (acc * 10 ^ length (digits (n div 10)) + n div 10) + n mod 10) cs"
    proof -
      have "48 + n mod 10 < 256" using m by linarith
      then have oc: "(of_char (char_of (48 + n mod 10)) :: nat) = 48 + n mod 10"
        by (simp only: of_char_of mod_less)
      have "is_digit (char_of (48 + n mod 10))"
        unfolding is_digit_def oc using m by linarith
      then show ?thesis
        by (simp only: lit_value.simps oc if_True add_diff_cancel_left')
    qed
    also have "10 * (acc * 10 ^ length (digits (n div 10)) + n div 10) + n mod 10
          = acc * 10 ^ length (digits n) + n"
      by (simp add: d algebra_simps)
    finally show ?thesis .
  qed
qed

lemma lit_value_digits_all: "lit_value False 0 (digits n) = Some n"
  using lit_value_digits [of False 0 n "[]"] by simp

lemma digit_not_space: "is_digit c \<Longrightarrow> \<not> is_space c"
  by (auto simp: is_digit_def is_space_def)

lemma dropWhile_id: "xs \<noteq> [] \<Longrightarrow> \<not> P (hd xs) \<Longrightarrow> dropWhile P xs = xs"
  by (cases xs) auto

lemma strip_id:
  assumes "s \<noteq> []" "\<not> is_space (hd s)" "\<not> is_space (last s)"
  shows "strip s = s"
proof -
  have a: "dropWhile is_space s = s"
    using assms by (simp add: dropWhile_id)
  have "rev s \<noteq> []" "\<not> is_space (hd (rev s))"
    using assms by (simp_all add: hd_rev)
  then have "dropWhile is_space (rev s) = rev s"
    by (rule dropWhile_id)
  with a show ?thesis by (simp add: strip_def)
qed

lemma strip_digits: "strip (digits n) = digits n"
proof (rule strip_id)
  show "digits n \<noteq> []" by (rule digits_nonempty)
  show "\<not> is_space (hd (digits n))"
    using digits_nonempty [of n] digits_are_digits [of "hd (digits n)" n]
    by (simp add: digit_not_space)
  show "\<not> is_space (last (digits n))"
    using digits_nonempty [of n] digits_are_digits [of "last (digits n)" n]
    by (simp add: digit_not_space)
qed

lemma strip_minus_digits: "strip (CHR ''-'' # digits n) = CHR ''-'' # digits n"
proof (rule strip_id)
  show "CHR ''-'' # digits n \<noteq> []" by simp
  show "\<not> is_space (hd (CHR ''-'' # digits n))" by (simp add: is_space_def)
  show "\<not> is_space (last (CHR ''-'' # digits n))"
    using digits_nonempty [of n] digits_are_digits [of "last (digits n)" n]
    by (simp add: digit_not_space)
qed

lemma int_literal_repr_int: "int_literal (repr_int i) = Some i"
proof (cases "i < 0")
  case True
  then show ?thesis
    by (simp add: int_literal_def repr_int_def strip_minus_digits lit_value_digits_all)
next
  case False
  obtain c cs where d: "digits (nat i) = c # cs"
    using digits_nonempty [of "nat i"] by (cases "digits (nat i)") auto
  have "is_digit c" using digits_are_digits [of c "nat i"] d by simp
  then have "c \<noteq> CHR ''-''" "c \<noteq> CHR ''+''" by (auto simp: is_digit_def)
  moreover have "lit_value False 0 (c # cs) = Some (nat i)"
    using lit_value_digits_all [of "nat i"] d by simp
  moreover have "strip (c # cs) = c # cs" using strip_digits [of "nat i"] d by simp
  ultimately show ?thesis
    using False by (simp add: int_literal_def repr_int_def d)
qed

lemma stored_int_repr_int: "stored_int (repr_int i) = Some i"
  by (simp add: stored_int_def int_literal_repr_int)

subsection \<open>UTF-8\<close>

text \<open>Decoding undoes encoding.\<close>

lemma split3: "(c::nat) div 4096 * 4096 + c div 64 mod 64 * 64 + c mod 64 = c"
proof -
  have x: "c div 4096 = c div 64 div 64"
    using div_mult2_eq [of c 64 64] by simp
  have "c div 4096 * 4096 + c div 64 mod 64 * 64 + c mod 64
        = (c div 64 div 64 * 64 + c div 64 mod 64) * 64 + c mod 64"
    unfolding x by (simp only: distrib_right mult.assoc)
  also have "\<dots> = c div 64 * 64 + c mod 64"
    by (simp only: div_mult_mod_eq)
  also have "\<dots> = c"
    by (simp only: div_mult_mod_eq)
  finally show ?thesis .
qed

lemma split4:
  "(c::nat) div 262144 * 262144 + c div 4096 mod 64 * 4096 + c div 64 mod 64 * 64 + c mod 64 = c"
proof -
  have x: "c div 262144 = c div 4096 div 64"
    using div_mult2_eq [of c 4096 64] by simp
  have "c div 262144 * 262144 + c div 4096 mod 64 * 4096
        = (c div 4096 div 64 * 64 + c div 4096 mod 64) * 4096"
    unfolding x by (simp only: distrib_right mult.assoc)
  also have "\<dots> = c div 4096 * 4096"
    by (simp only: div_mult_mod_eq)
  finally have "c div 262144 * 262144 + c div 4096 mod 64 * 4096 + c div 64 mod 64 * 64 + c mod 64
        = c div 4096 * 4096 + c div 64 mod 64 * 64 + c mod 64"
    by (simp only:)
  then show ?thesis by (simp only: split3)
qed

lemma cont_char: "n < 64 \<Longrightarrow> cont (char_of (0x80 + n)) \<and> low6 (char_of (0x80 + n)) = n"
  by (simp add: cont_def low6_def)

lemma utf8_first_2:
  assumes "2 \<le> a" "a < 32" "b1 < 64"
  shows "utf8_first (char_of (0xC0 + a) # char_of (0x80 + b1) # r) = Some (2, a * 64 + b1)"
  using assms cont_char [of b1] by (simp add: utf8_first_def)

lemma utf8_first_3:
  assumes "a < 16" "b1 < 64" "b2 < 64" "0x800 \<le> a * 4096 + b1 * 64 + b2"
    "\<not> (0xD800 \<le> a * 4096 + b1 * 64 + b2 \<and> a * 4096 + b1 * 64 + b2 < 0xE000)"
  shows "utf8_first (char_of (0xE0 + a) # char_of (0x80 + b1) # char_of (0x80 + b2) # r)
           = Some (3, a * 4096 + b1 * 64 + b2)"
  using assms cont_char [of b1] cont_char [of b2] by (simp add: utf8_first_def)

lemma utf8_first_4:
  assumes "a < 5" "b1 < 64" "b2 < 64" "b3 < 64" "0x10000 \<le> a * 262144 + b1 * 4096 + b2 * 64 + b3"
    "a * 262144 + b1 * 4096 + b2 * 64 + b3 < 0x110000"
  shows "utf8_first (char_of (0xF0 + a) # char_of (0x80 + b1) # char_of (0x80 + b2)
            # char_of (0x80 + b3) # r)
           = Some (4, a * 262144 + b1 * 4096 + b2 * 64 + b3)"
  using assms cont_char [of b1] cont_char [of b2] cont_char [of b3]
  by (simp add: utf8_first_def)

lemma utf8_first_char:
  assumes "utf8_char c = Some bs"
  shows "utf8_first (bs @ r) = Some (length bs, c)"
proof -
  consider (a) "c < 0x80" | (b) "0x80 \<le> c" "c < 0x800" | (c) "0x800 \<le> c" "c < 0x10000"
    | (d) "0x10000 \<le> c" "c < 0x110000" | (e) "0x110000 \<le> c"
    by linarith
  then show ?thesis
  proof cases
    case a
    with assms show ?thesis by (auto simp: utf8_char_def utf8_first_def)
  next
    case b
    have 1: "2 \<le> c div 64" "c div 64 < 32" "c mod 64 < 64" using b by auto
    have 3: "c div 64 * 64 + c mod 64 = c" by simp
    from assms b have bs: "bs = [char_of (0xC0 + c div 64), char_of (0x80 + c mod 64)]"
      by (auto simp: utf8_char_def)
    show ?thesis
      unfolding bs using utf8_first_2 [OF 1, of r] by (simp only: 3 append_Cons append_Nil) simp
  next
    case c
    have 1: "c div 4096 < 16" "c div 64 mod 64 < 64" "c mod 64 < 64" using c by auto
    have 3: "c div 4096 * 4096 + c div 64 mod 64 * 64 + c mod 64 = c" by (rule split3)
    from assms c have ns: "\<not> (0xD800 \<le> c \<and> c < 0xE000)"
      by (auto simp: utf8_char_def split: if_splits)
    from assms c ns have bs: "bs = [char_of (0xE0 + c div 4096),
        char_of (0x80 + c div 64 mod 64), char_of (0x80 + c mod 64)]"
      by (auto simp: utf8_char_def)
    have "utf8_first (char_of (0xE0 + c div 4096) # char_of (0x80 + c div 64 mod 64)
            # char_of (0x80 + c mod 64) # r) = Some (3, c)"
      using utf8_first_3 [OF 1, of r] c(1) ns unfolding 3 by blast
    then show ?thesis
      unfolding bs by simp
  next
    case d
    have 1: "c div 262144 < 5" "c div 4096 mod 64 < 64" "c div 64 mod 64 < 64" "c mod 64 < 64"
      using d by auto
    have 3: "c div 262144 * 262144 + c div 4096 mod 64 * 4096 + c div 64 mod 64 * 64
               + c mod 64 = c" by (rule split4)
    from assms d have bs: "bs = [char_of (0xF0 + c div 262144),
        char_of (0x80 + c div 4096 mod 64), char_of (0x80 + c div 64 mod 64),
        char_of (0x80 + c mod 64)]"
      by (auto simp: utf8_char_def)
    have "utf8_first (char_of (0xF0 + c div 262144) # char_of (0x80 + c div 4096 mod 64)
            # char_of (0x80 + c div 64 mod 64) # char_of (0x80 + c mod 64) # r) = Some (4, c)"
      using utf8_first_4 [OF 1, of r] d unfolding 3 by blast
    then show ?thesis
      unfolding bs by simp
  next
    case e
    with assms show ?thesis by (auto simp: utf8_char_def)
  qed
qed

lemma utf8_char_nonempty: "utf8_char c = Some bs \<Longrightarrow> bs \<noteq> []"
  by (auto simp: utf8_char_def split: if_splits)

lemma utf8_decode_char:
  assumes "utf8_char c = Some bs"
  shows "utf8_decode (bs @ r) = (case utf8_decode r of Inl e \<Rightarrow> Inl e | Inr t \<Rightarrow> Inr (c # t))"
  using utf8_first_char [OF assms, of r] utf8_char_nonempty [OF assms]
  by (subst utf8_decode.simps) simp

lemma utf8_roundtrip: "utf8_encode s = Inr b \<Longrightarrow> utf8_decode b = Inr s"
proof (induction s arbitrary: b)
  case Nil
  then show ?case by (simp add: utf8_decode.simps)
next
  case (Cons c s)
  then show ?case
    by (auto simp: utf8_decode_char split: option.splits sum.splits)
qed

lemma utf8_encode_ascii: "\<forall>c\<in>set s. c < 128 \<Longrightarrow> utf8_encode s = Inr (map char_of s)"
  by (induction s) (auto simp: utf8_char_def)

lemma utf8_encode_lit: "\<forall>c\<in>set s. (of_char c :: nat) < 128 \<Longrightarrow> utf8_encode (lit s) = Inr s"
  using utf8_encode_ascii [of "lit s"] by (simp add: lit_def comp_def)

subsection \<open>The keys\<close>

text \<open>The three keys of \<^verbatim>\<open>Cache.store\<close> and the generated key, as bytes; the generated key is none of the three.\<close>

lemma enc_name [simp]: "utf8_encode (lit ''Cache.store'') = Inr ''Cache.store''"
  by (rule utf8_encode_lit) simp

lemma enc_in_key [simp]:
  "utf8_encode (lit ''Cache.store'' @ lit '':inputs'') = Inr ''Cache.store:inputs''"
  using utf8_encode_lit [of "''Cache.store:inputs''"] by (simp add: lit_def)

lemma enc_out_key [simp]:
  "utf8_encode (lit ''Cache.store'' @ lit '':outputs'') = Inr ''Cache.store:outputs''"
  using utf8_encode_lit [of "''Cache.store:outputs''"] by (simp add: lit_def)

lemma hexdigit_ascii: "n < 16 \<Longrightarrow> hexdigit n < 128"
  by (simp add: hexdigit_def)

lemma hex_fixed_ascii: "c \<in> set (hex_fixed w n) \<Longrightarrow> c < 128"
  by (auto simp: hex_fixed_def intro!: hexdigit_ascii)

lemma length_hex_fixed [simp]: "length (hex_fixed w n) = w"
  by (simp add: hex_fixed_def)

lemma str_uuid_ascii: "c \<in> set (str_uuid u) \<Longrightarrow> c < 128"
  by (auto simp: str_uuid_def Let_def dest!: in_set_takeD in_set_dropD hex_fixed_ascii)

lemma length_str_uuid [simp]: "length (str_uuid u) = 36"
  by (simp add: str_uuid_def Let_def)

lemma enc_key [simp]: "utf8_encode (str_uuid (uuid4 r)) = Inr (key_bytes r)"
  unfolding key_bytes_def by (rule utf8_encode_ascii) (auto dest: str_uuid_ascii)

lemma length_key_bytes [simp]: "length (key_bytes r) = 36"
  by (simp add: key_bytes_def)

lemma key_bytes_neq [simp]:
  "key_bytes r \<noteq> ''Cache.store''" "key_bytes r \<noteq> ''Cache.store:inputs''"
  "key_bytes r \<noteq> ''Cache.store:outputs''"
  by (auto dest: arg_cong [where f = length])

lemma key_bytes_neq' [simp]:
  "''Cache.store'' \<noteq> key_bytes r" "''Cache.store:inputs'' \<noteq> key_bytes r"
  "''Cache.store:outputs'' \<noteq> key_bytes r"
  by (auto dest: arg_cong [where f = length])

subsection \<open>The decorated method as a pipeline\<close>

text \<open>\<^verbatim>\<open>Cache.store\<close> on a Redis client is four commands in a row, each ending the call when it fails.\<close>

lemma send_eq: "send cmd c = (up (link c), sent cmd c)"
  by (cases "link c") (auto simp: send_def up_def sent_def)

lemma sent_simps [simp]:
  "db (sent cmd c) = db c" "link (sent cmd c) = tl (link c)" "wire (sent cmd c) = wire c @ [cmd]"
  by (simp_all add: sent_def)

lemma with_conn_simps [simp]: "redis (with_conn self c) = Redis c"
  "with_conn (with_conn self c) c' = with_conn self c'"
  by (simp_all add: with_conn_def)

lemma Cache_store_unfold:
  assumes "redis self = Redis c"
  shows "Cache_store P r self args kw =
    (case redis_incr (lit ''Cache.store'') c of
       (Inl e, c1) \<Rightarrow> (Inl e, with_conn self c1)
     | (Inr _, c1) \<Rightarrow>
         if kw \<noteq> [] then (Inl TypeError, with_conn self c1)
         else if \<not> list_all renderable args then (Inl ValueError, with_conn self c1)
         else
           (case redis_rpush (lit ''Cache.store'' @ lit '':inputs'') (PStr (str_tuple P args)) c1 of
              (Inl e, c2) \<Rightarrow> (Inl e, with_conn self c2)
            | (Inr _, c2) \<Rightarrow>
                (case args of
                   [d] \<Rightarrow>
                     (case redis_set (str_uuid (uuid4 r)) d c2 of
                        (Inl e, c3) \<Rightarrow> (Inl e, with_conn self c3)
                      | (Inr _, c3) \<Rightarrow>
                          (case redis_rpush (lit ''Cache.store'' @ lit '':outputs'')
                                  (PStr (str_uuid (uuid4 r))) c3 of
                             (Inl e, c4) \<Rightarrow> (Inl e, with_conn self c4)
                           | (Inr _, c4) \<Rightarrow> (Inr (PStr (str_uuid (uuid4 r))), with_conn self c4)))
                 | _ \<Rightarrow> (Inl TypeError, with_conn self c2))))"
  using assms
  by (simp add: Cache_store_def count_calls_def call_history_def store_def with_conn_def Let_def
      str_args_def split: prod.splits sum.splits list.splits)

subsection \<open>What a command leaves alone\<close>





subsection \<open>A call that returns\<close>

lemma redis_incr_success:
  assumes "redis_incr key c = (Inr n, c')" "utf8_encode key = Inr k"
  shows "up (link c) \<and> c' = (sent (INCR k) c)\<lparr>db := (db c)(k \<mapsto> RStr (repr_int n))\<rparr>
         \<and> (db c k = None \<and> n = 1 \<or> (\<exists>b. db c k = Some (RStr b) \<and> stored_int b = Some (n - 1)))"
  using assms
  by (auto simp: redis_incr_def send_eq split: sum.splits if_splits option.splits rval.splits bool.splits)

lemma redis_rpush_success:
  assumes "redis_rpush key v c = (Inr n, c')" "utf8_encode key = Inr k"
  shows "\<exists>x xs. encode v = Inr x \<and> history (db c) k = Some xs \<and> up (link c)
           \<and> c' = (sent (RPUSH k x) c)\<lparr>db := (db c)(k \<mapsto> RList (xs @ [x]))\<rparr>"
  using assms
  by (auto simp: redis_rpush_def send_eq history_def
      split: sum.splits if_splits option.splits rval.splits bool.splits)

lemma redis_set_success:
  assumes "redis_set key v c = (Inr n, c')" "utf8_encode key = Inr k"
  shows "\<exists>x. encode v = Inr x \<and> up (link c)
           \<and> c' = (sent (SET k x) c)\<lparr>db := (db c)(k \<mapsto> RStr x)\<rparr>"
  using assms
  by (auto simp: redis_set_def send_eq split: sum.splits if_splits bool.splits)

lemma Cache_store_success:
  assumes "redis self = Redis c" "Cache_store P r self args kw = (Inr v, self')"
  shows "\<exists>c' d i x ins outs n.
           redis self' = Redis c' \<and> self' = with_conn self c'
         \<and> args = [d] \<and> kw = [] \<and> v = PStr (str_uuid (uuid4 r))
         \<and> renderable d
         \<and> utf8_encode (str_tuple P args) = Inr i \<and> encode d = Inr x
         \<and> history (db c) ''Cache.store:inputs'' = Some ins
         \<and> history (db c) ''Cache.store:outputs'' = Some outs
         \<and> (db c ''Cache.store'' = None \<and> n = 1
              \<or> (\<exists>b. db c ''Cache.store'' = Some (RStr b) \<and> stored_int b = Some (n - 1)))
         \<and> db c' = (db c)(''Cache.store'' \<mapsto> RStr (repr_int n),
                           ''Cache.store:inputs'' \<mapsto> RList (ins @ [i]),
                           key_bytes r \<mapsto> RStr x,
                           ''Cache.store:outputs'' \<mapsto> RList (outs @ [key_bytes r]))
         \<and> wire c' = wire c @ [INCR ''Cache.store'', RPUSH ''Cache.store:inputs'' i,
                                 SET (key_bytes r) x, RPUSH ''Cache.store:outputs'' (key_bytes r)]
         \<and> link c' = tl (tl (tl (tl (link c))))
         \<and> up (link c) \<and> up (tl (link c)) \<and> up (tl (tl (link c)))
         \<and> up (tl (tl (tl (link c))))"
proof -
  from assms(2) obtain n c1 where 1: "redis_incr (lit ''Cache.store'') c = (Inr n, c1)"
    and kw: "kw = []" and ra: "list_all renderable args"
    unfolding Cache_store_unfold [OF assms(1)]
    by (auto split: prod.splits sum.splits if_splits)
  from assms(2) 1 kw ra obtain n2 c2 where
    2: "redis_rpush (lit ''Cache.store'' @ lit '':inputs'') (PStr (str_tuple P args)) c1 = (Inr n2, c2)"
    unfolding Cache_store_unfold [OF assms(1)]
    by (auto split: prod.splits sum.splits if_splits)
  from assms(2) 1 kw ra 2 obtain d where d: "args = [d]"
    unfolding Cache_store_unfold [OF assms(1)]
    by (auto split: prod.splits sum.splits if_splits list.splits)
  from assms(2) 1 kw ra 2 d obtain n3 c3 where
    3: "redis_set (str_uuid (uuid4 r)) d c2 = (Inr n3, c3)"
    unfolding Cache_store_unfold [OF assms(1)]
    by (auto split: prod.splits sum.splits if_splits)
  from assms(2) 1 kw ra 2 d 3 obtain n4 c4 where
    4: "redis_rpush (lit ''Cache.store'' @ lit '':outputs'') (PStr (str_uuid (uuid4 r))) c3 = (Inr n4, c4)"
    and v: "v = PStr (str_uuid (uuid4 r))" and s: "self' = with_conn self c4"
    unfolding Cache_store_unfold [OF assms(1)]
    by (auto split: prod.splits sum.splits if_splits)
  note e1 = redis_incr_success [OF 1 enc_name]
  from redis_rpush_success [OF 2 enc_in_key] obtain i ins where
    e2: "utf8_encode (str_tuple P args) = Inr i" "history (db c1) ''Cache.store:inputs'' = Some ins"
      "up (link c1)"
      "c2 = (sent (RPUSH ''Cache.store:inputs'' i) c1)\<lparr>db := (db c1)(''Cache.store:inputs'' \<mapsto> RList (ins @ [i]))\<rparr>"
    by auto
  from redis_set_success [OF 3 enc_key] obtain x where
    e3: "encode d = Inr x" "up (link c2)"
      "c3 = (sent (SET (key_bytes r) x) c2)\<lparr>db := (db c2)(key_bytes r \<mapsto> RStr x)\<rparr>"
    by auto
  from redis_rpush_success [OF 4 enc_out_key] obtain outs where
    e4: "history (db c3) ''Cache.store:outputs'' = Some outs" "up (link c3)"
      "c4 = (sent (RPUSH ''Cache.store:outputs'' (key_bytes r)) c3)\<lparr>db := (db c3)(''Cache.store:outputs'' \<mapsto> RList (outs @ [key_bytes r]))\<rparr>"
    by auto
  have h_in: "history (db c) ''Cache.store:inputs'' = Some ins"
    using e1 e2(2) by (auto simp: history_def)
  have h_out: "history (db c) ''Cache.store:outputs'' = Some outs"
    using e1 e2(4) e3(3) e4(1) key_bytes_neq [of r] by (auto simp: history_def)
  have dbs: "db c4 = (db c)(''Cache.store'' \<mapsto> RStr (repr_int n),
                           ''Cache.store:inputs'' \<mapsto> RList (ins @ [i]),
                           key_bytes r \<mapsto> RStr x,
                           ''Cache.store:outputs'' \<mapsto> RList (outs @ [key_bytes r]))"
    using e1 e2(4) e3(3) e4(3) by simp
  have w: "wire c4 = wire c @ [INCR ''Cache.store'', RPUSH ''Cache.store:inputs'' i,
                                 SET (key_bytes r) x, RPUSH ''Cache.store:outputs'' (key_bytes r)]"
    using e1 e2(4) e3(3) e4(3) by simp
  have l: "link c4 = tl (tl (tl (tl (link c))))" "up (link c)" "up (tl (link c))"
    "up (tl (tl (link c)))" "up (tl (tl (tl (link c))))"
    using e1 e2(3,4) e3(2,3) e4(2,3) by simp_all
  show ?thesis
    using s d kw ra v e2(1) e3(1) h_in h_out e1 dbs w l by auto
qed

subsection \<open>The counter\<close>

lemma Cache_init_fresh:
  assumes "Cache_init server = Inr self"
  shows "\<exists>c. redis self = Redis c \<and> db c = Map.empty \<and> wire c = wire server @ [FLUSHDB]
           \<and> link c = tl (link server) \<and> up (link server)"
  using assms
  by (auto simp: Cache_init_def redis_flushdb_def send_eq split: bool.splits)

lemma redis_on_link [simp]:
  "redis self = Redis c \<Longrightarrow> redis (on_link l self) = Redis (c\<lparr>link := l\<rparr>)"
  by (simp add: on_link_def)




subsection \<open>What the client can encode\<close>

lemma utf8_char_scalar: "utf8_char c = None \<longleftrightarrow> \<not> scalar c"
  by (auto simp: utf8_char_def scalar_def)

lemma utf8_char_Some: "utf8_char c = Some x \<Longrightarrow> scalar c"
  using utf8_char_scalar [of c] by auto

lemma utf8_encode_scalar: "(\<exists>b. utf8_encode s = Inr b) \<longleftrightarrow> list_all scalar s"
  by (induction s) (auto simp: utf8_char_scalar dest: utf8_char_Some split: option.splits sum.splits)

lemma encode_defined: "(\<exists>b. encode v = Inr b) \<longleftrightarrow> storable v"
  by (cases v) (simp_all add: utf8_encode_scalar)

lemma encode_renderable: "encode v = Inr b \<Longrightarrow> renderable v"
  by (cases v) (simp_all split: if_splits)

lemma small_scalar: "c < 256 \<Longrightarrow> scalar c"
  by (simp add: scalar_def)

lemma lit_scalar: "list_all scalar (lit s)"
  by (simp add: lit_def list_all_iff small_scalar)

lemma quote_of_cases: "quote_of s = 34 \<or> quote_of s = 39"
  by (simp add: quote_of_def)

lemma esc_char_set: "q < 128 \<Longrightarrow> x \<in> set (esc_char P q c) \<Longrightarrow> x = c \<or> x < 128"
  unfolding esc_char_def
  by (auto dest: hex_fixed_ascii split: if_splits)

lemma esc_byte_set: "q < 128 \<Longrightarrow> c < 256 \<Longrightarrow> x \<in> set (esc_byte q c) \<Longrightarrow> x < 256"
  unfolding esc_byte_def
  by (auto dest!: hex_fixed_ascii split: if_splits)

lemma str_repr_scalar:
  assumes "list_all scalar s"
  shows "list_all scalar (str_repr P s)"
proof -
  have q: "quote_of s < 128" using quote_of_cases [of s] by auto
  have "scalar x" if "x \<in> set (esc_char P (quote_of s) c)" "c \<in> set s" for x c
    using esc_char_set [OF q that(1)] that(2) assms
    by (auto simp: list_all_iff small_scalar)
  then show ?thesis
    using q by (auto simp: str_repr_def Let_def list_all_iff small_scalar)
qed

lemma bytes_repr_scalar: "list_all scalar (bytes_repr b)"
proof -
  let ?s = "map of_char b :: nat list"
  have q: "quote_of ?s < 128" using quote_of_cases [of ?s] by auto
  have "scalar x" if "x \<in> set (esc_byte (quote_of ?s) (of_char c))" for x c
    using esc_byte_set [OF q _ that] by (simp add: small_scalar)
  then show ?thesis
    using q by (auto simp: bytes_repr_def Let_def list_all_iff small_scalar)
qed

lemma repr_scalar:
  assumes "encode v = Inr b"
  shows "list_all scalar (repr P v)"
proof (cases v)
  case (PStr s)
  with assms have "list_all scalar s"
    using utf8_encode_scalar [of s] by auto
  with PStr show ?thesis by (simp add: str_repr_scalar)
qed (use assms in \<open>simp_all add: lit_scalar bytes_repr_scalar split: if_splits\<close>)

lemma str_tuple_encodable:
  assumes "encode v = Inr b"
  shows "\<exists>i. utf8_encode (str_tuple P [v]) = Inr i"
  unfolding utf8_encode_scalar str_tuple_def
  using repr_scalar [OF assms, of P] lit_scalar by simp

subsection \<open>Calls bound to return, and \<^verbatim>\<open>get\<close>\<close>

lemma redis_incr_ok:
  assumes "utf8_encode key = Inr k" "up (link c)"
    "db c k = None \<or> (\<exists>b i. db c k = Some (RStr b) \<and> stored_int b = Some i)"
  shows "\<exists>n c'. redis_incr key c = (Inr n, c')"
  using assms by (auto simp: redis_incr_def send_eq)

lemma redis_rpush_ok:
  assumes "utf8_encode key = Inr k" "encode v = Inr x" "up (link c)" "history (db c) k \<noteq> None"
  shows "\<exists>n c'. redis_rpush key v c = (Inr n, c')"
  using assms by (auto simp: redis_rpush_def send_eq history_def split: option.splits rval.splits)

lemma redis_set_ok:
  assumes "utf8_encode key = Inr k" "encode v = Inr x" "up (link c)"
  shows "\<exists>n c'. redis_set key v c = (Inr n, c')"
  using assms by (auto simp: redis_set_def send_eq)

lemma up_Nil [simp]: "up []"
  by (simp add: up_def)

lemma Cache_store_returns:
  assumes "redis self = Redis c" "recordable (db c)" "link c = []" "encode v = Inr x"
  shows "\<exists>self'. Cache_store P r self [v] [] = (Inr (PStr (str_uuid (uuid4 r))), self')"
proof -
  from assms(2) have r: "db c ''Cache.store'' = None
      \<or> (\<exists>b i. db c ''Cache.store'' = Some (RStr b) \<and> stored_int b = Some i)"
    "history (db c) ''Cache.store:inputs'' \<noteq> None"
    "history (db c) ''Cache.store:outputs'' \<noteq> None"
    by (auto simp: recordable_def split: option.splits rval.splits)
  from redis_incr_ok [OF enc_name _ r(1)] assms(3) obtain n c1 where
    1: "redis_incr (lit ''Cache.store'') c = (Inr n, c1)" by auto
  from redis_incr_success [OF 1 enc_name] assms(3) r(2,3) have c1: "link c1 = []"
    "history (db c1) ''Cache.store:inputs'' \<noteq> None"
    "history (db c1) ''Cache.store:outputs'' \<noteq> None"
    by (auto simp: history_def)
  from str_tuple_encodable [OF assms(4), of P] obtain i where
    i: "utf8_encode (str_tuple P [v]) = Inr i" by blast
  from redis_rpush_ok [OF enc_in_key, of "PStr (str_tuple P [v])" i c1] i c1 obtain n2 c2 where
    2: "redis_rpush (lit ''Cache.store'' @ lit '':inputs'') (PStr (str_tuple P [v])) c1 = (Inr n2, c2)"
    by auto
  from redis_rpush_success [OF 2 enc_in_key] c1 have c2: "link c2 = []"
    "history (db c2) ''Cache.store:outputs'' \<noteq> None"
    by (auto simp: history_def)
  from redis_set_ok [OF enc_key assms(4), of c2 r] c2 obtain n3 c3 where
    3: "redis_set (str_uuid (uuid4 r)) v c2 = (Inr n3, c3)" by auto
  from redis_set_success [OF 3 enc_key] c2 have c3: "link c3 = []"
    "history (db c3) ''Cache.store:outputs'' \<noteq> None"
    by (auto simp: history_def)
  from redis_rpush_ok [OF enc_out_key, of "PStr (str_uuid (uuid4 r))" "key_bytes r" c3] c3
  obtain n4 c4 where
    4: "redis_rpush (lit ''Cache.store'' @ lit '':outputs'') (PStr (str_uuid (uuid4 r))) c3 = (Inr n4, c4)"
    by auto
  show ?thesis
    unfolding Cache_store_unfold [OF assms(1)]
    using 1 2 3 4 encode_renderable [OF assms(4)] by simp
qed

lemma Cache_get_hit:
  assumes "redis self = Redis c" "up (link c)" "utf8_encode key = Inr k" "db c k = Some (RStr b)"
  shows "fst (Cache_get self key m) = (case m of None \<Rightarrow> Inr (PBytes b) | Some f \<Rightarrow> f (Some b))"
  using assms by (simp add: Cache_get_def redis_get_def send_eq split: option.splits)

lemma Cache_get_miss:
  assumes "redis self = Redis c" "up (link c)" "utf8_encode key = Inr k" "db c k = None"
  shows "fst (Cache_get self key m) = (case m of None \<Rightarrow> Inr PNone | Some f \<Rightarrow> f None)"
  using assms by (simp add: Cache_get_def redis_get_def send_eq split: option.splits)

lemma recordable_empty [simp]: "recordable Map.empty"
  by (simp add: recordable_def history_def)

lemma store_then_get:
  assumes "redis self = Redis c" "recordable (db c)" "link c = []" "encode v = Inr x"
  shows "\<exists>self'. Cache_store P r self [v] [] = (Inr (PStr (str_uuid (uuid4 r))), self')
           \<and> (\<forall>m. fst (Cache_get self' (str_uuid (uuid4 r)) m)
                 = (case m of None \<Rightarrow> Inr (PBytes x) | Some f \<Rightarrow> f (Some x)))"
proof -
  from Cache_store_returns [OF assms, of P r] obtain self' where
    s: "Cache_store P r self [v] [] = (Inr (PStr (str_uuid (uuid4 r))), self')" by blast
  from Cache_store_success [OF assms(1) s] assms(3,4) obtain c' where
    c': "redis self' = Redis c'" "db c' (key_bytes r) = Some (RStr x)" "link c' = []"
    by auto
  have "fst (Cache_get self' (str_uuid (uuid4 r)) m)
               = (case m of None \<Rightarrow> Inr (PBytes x) | Some f \<Rightarrow> f (Some x))" for m
    by (rule Cache_get_hit [OF c'(1) _ enc_key c'(2)]) (simp add: c'(3))
  with s show ?thesis by blast
qed

lemma bytes_repr_foo: "bytes_repr ''foo'' = [98, 39, 102, 111, 111, 39]"
  by (simp add: bytes_repr_def quote_of_def esc_byte_def)

lemma int_literal_foo: "int_literal ''foo'' = None"
  by (simp add: int_literal_def strip_def is_space_def is_digit_def)

lemma lit_foo: "lit ''foo'' = [102, 111, 111]"
  by (simp add: lit_def)

lemma encode_foo: "encode (PStr (lit ''foo'')) = Inr ''foo''"
  using utf8_encode_lit [of "''foo''"] by simp

lemma Cache_init_idle:
  "Cache_init \<lparr>db = d, link = [], wire = w\<rparr>
     = Inr \<lparr>redis = Redis \<lparr>db = Map.empty, link = [], wire = w @ [FLUSHDB]\<rparr>\<rparr>"
  by (simp add: Cache_init_def redis_flushdb_def send_def)

subsection \<open>\<^verbatim>\<open>replay\<close>\<close>

lemma replay_zero:
  assumes "utf8_encode name = Inr k" "counter (db r) k = Some 0"
  shows "snd (replay (BoundMethod (Some (Redis r)) name)) = []"
  using assms
  by (auto simp: replay_def redis_exists_def redis_get_def send_eq counter_def py_int_def
      split: bool.splits option.splits rval.splits sum.splits prod.splits pyval.splits)

lemma replay_zero_idle:
  assumes "utf8_encode name = Inr k" "counter (db r) k = Some 0" "link r = []"
  shows "replay (BoundMethod (Some (Redis r)) name) = (Inr (), [])"
  using assms
  by (auto simp: replay_def redis_exists_def redis_get_def send_eq counter_def py_int_def
      split: bool.splits option.splits rval.splits sum.splits prod.splits pyval.splits)

lemma lrange_all [simp]: "lrange 0 (- 1) xs = xs"
  by (cases xs) (auto simp: lrange_def Let_def)

lemma replay_lists:
  assumes "link r = []" "utf8_encode name = Inr k"
    "utf8_encode (name @ lit '':inputs'') = Inr ki" "utf8_encode (name @ lit '':outputs'') = Inr ko"
    "db r k = Some (RStr b)" "int_literal b = Some n" "n \<noteq> 0"
    "history (db r) ki = Some ins" "history (db r) ko = Some outs"
  shows "replay (BoundMethod (Some (Redis r)) name) =
           (case replay_loop name (zip ins outs) of
              (res, ls) \<Rightarrow> (res, (name @ lit '' was called '' @ lit (repr_int n) @ lit '' times:'') # ls))"
  using assms
  by (auto simp: replay_def redis_exists_def redis_get_def redis_lrange_def send_eq py_int_def
      history_def Let_def
      split: option.splits rval.splits prod.splits)

lemma replay_loop_decoded:
  assumes "map utf8_decode ins = map Inr xs" "map utf8_decode outs = map Inr ys"
  shows "replay_loop name (zip ins outs)
           = (Inr (), map (\<lambda>(x, y). name @ lit ''(*'' @ x @ lit '') -> '' @ y) (zip xs ys))"
  using assms
proof (induction ins arbitrary: outs xs ys)
  case Nil
  then show ?case by simp
next
  case (Cons i ins)
  show ?case
  proof (cases outs)
    case Nil
    with Cons.prems show ?thesis by simp
  next
    case (Cons o' outs')
    with Cons.prems obtain x xs' y ys' where
      "xs = x # xs'" "ys = y # ys'" "utf8_decode i = Inr x" "utf8_decode o' = Inr y"
      "map utf8_decode ins = map Inr xs'" "map utf8_decode outs' = map Inr ys'"
      by (cases xs; cases ys) auto
    with Cons.IH [of xs' outs' ys'] Cons show ?thesis by simp
  qed
qed

subsection \<open>Calls that all return\<close>

lemma tally_Suc: "tally (Suc m) = Some (RStr (repr_int (int m + 1)))"
  by (simp add: tally_def add.commute)

lemma invoke_success:
  assumes "redis self = Redis c" "invoke P self i = (Inr v, self')"
    "db c ''Cache.store'' = tally m"
    "history (db c) ''Cache.store:inputs'' = Some ins"
    "history (db c) ''Cache.store:outputs'' = Some outs"
  shows "\<exists>c' x. redis self' = Redis c' \<and> v = PStr (str_uuid (uuid4 (random i)))
           \<and> utf8_encode (str_tuple P (positional i)) = Inr x
           \<and> db c' ''Cache.store'' = tally (Suc m)
           \<and> history (db c') ''Cache.store:inputs'' = Some (ins @ [x])
           \<and> history (db c') ''Cache.store:outputs'' = Some (outs @ [key_bytes (random i)])"
proof -
  let ?c = "c\<lparr>link := outages i\<rparr>"
  have r: "redis (on_link (outages i) self) = Redis ?c"
    using assms(1) by simp
  have s: "Cache_store P (random i) (on_link (outages i) self) (positional i) (named i)
             = (Inr v, self')"
    using assms(2) by (simp add: invoke_def)
  from Cache_store_success [OF r s] obtain c' d x ins' outs' n where
    f: "redis self' = Redis c'" "v = PStr (str_uuid (uuid4 (random i)))"
      "utf8_encode (str_tuple P (positional i)) = Inr x"
      "history (db ?c) ''Cache.store:inputs'' = Some ins'"
      "history (db ?c) ''Cache.store:outputs'' = Some outs'"
      "db ?c ''Cache.store'' = None \<and> n = 1
         \<or> (\<exists>b. db ?c ''Cache.store'' = Some (RStr b) \<and> stored_int b = Some (n - 1))"
      "db c' = (db ?c)(''Cache.store'' \<mapsto> RStr (repr_int n),
                       ''Cache.store:inputs'' \<mapsto> RList (ins' @ [x]),
                       key_bytes (random i) \<mapsto> RStr d,
                       ''Cache.store:outputs'' \<mapsto> RList (outs' @ [key_bytes (random i)]))"
    by blast
  have io: "ins' = ins" "outs' = outs"
    using f(4,5) assms(4,5) by simp_all
  have n: "n = int m + 1"
    using f(6) assms(3) by (auto simp: tally_def stored_int_repr_int split: if_splits)
  have "db c' ''Cache.store'' = tally (Suc m)"
    using f(7) n by (simp add: tally_Suc)
  moreover have "history (db c') ''Cache.store:inputs'' = Some (ins @ [x])"
    "history (db c') ''Cache.store:outputs'' = Some (outs @ [key_bytes (random i)])"
    using f(7) io by (simp_all add: history_def)
  ultimately show ?thesis
    using f(1,2,3) by blast
qed

lemma invoke_all_success:
  assumes "redis self = Redis c" "db c ''Cache.store'' = tally m"
    "history (db c) ''Cache.store:inputs'' = Some ins"
    "history (db c) ''Cache.store:outputs'' = Some outs"
    "invoke_all P self calls = (results, self')" "\<forall>r\<in>set results. \<not> isl r"
  shows "\<exists>c' xs. redis self' = Redis c'
           \<and> db c' ''Cache.store'' = tally (m + length calls)
           \<and> map (\<lambda>i. utf8_encode (str_tuple P (positional i))) calls = map Inr xs
           \<and> history (db c') ''Cache.store:inputs'' = Some (ins @ xs)
           \<and> history (db c') ''Cache.store:outputs''
                = Some (outs @ map (\<lambda>i. key_bytes (random i)) calls)
           \<and> results = map (\<lambda>i. Inr (PStr (str_uuid (uuid4 (random i))))) calls"
  using assms
proof (induction calls arbitrary: self c m ins outs results self')
  case Nil
  then show ?case by auto
next
  case (Cons i calls)
  obtain r1 self1 where 1: "invoke P self i = (r1, self1)" by force
  obtain rs self2 where 2: "invoke_all P self1 calls = (rs, self2)" by force
  from Cons.prems(5) 1 2 have res: "results = r1 # rs" "self' = self2" by simp_all
  with Cons.prems(6) obtain v where v: "r1 = Inr v" by (cases r1) auto
  from invoke_success [OF Cons.prems(1) 1 [unfolded v] Cons.prems(2,3,4)]
  obtain c1 x where
    s: "redis self1 = Redis c1" "v = PStr (str_uuid (uuid4 (random i)))"
      "utf8_encode (str_tuple P (positional i)) = Inr x"
      "db c1 ''Cache.store'' = tally (Suc m)"
      "history (db c1) ''Cache.store:inputs'' = Some (ins @ [x])"
      "history (db c1) ''Cache.store:outputs'' = Some (outs @ [key_bytes (random i)])"
    by blast
  have "\<forall>r\<in>set rs. \<not> isl r" using Cons.prems(6) res by simp
  from Cons.IH [OF s(1) s(4,5,6) 2 this] obtain c' xs where
    t: "redis self2 = Redis c'" "db c' ''Cache.store'' = tally (Suc m + length calls)"
      "map (\<lambda>i. utf8_encode (str_tuple P (positional i))) calls = map Inr xs"
      "history (db c') ''Cache.store:inputs'' = Some ((ins @ [x]) @ xs)"
      "history (db c') ''Cache.store:outputs''
         = Some ((outs @ [key_bytes (random i)]) @ map (\<lambda>i. key_bytes (random i)) calls)"
      "rs = map (\<lambda>i. Inr (PStr (str_uuid (uuid4 (random i))))) calls"
    by blast
  show ?case
  proof (intro exI conjI)
    show "redis self' = Redis c'" using t(1) res by simp
    show "db c' ''Cache.store'' = tally (m + length (i # calls))" using t(2) by simp
    show "map (\<lambda>i. utf8_encode (str_tuple P (positional i))) (i # calls) = map Inr (x # xs)"
      using t(3) s(3) by simp
    show "history (db c') ''Cache.store:inputs'' = Some (ins @ x # xs)" using t(4) by simp
    show "history (db c') ''Cache.store:outputs''
            = Some (outs @ map (\<lambda>i. key_bytes (random i)) (i # calls))" using t(5) by simp
    show "results = map (\<lambda>i. Inr (PStr (str_uuid (uuid4 (random i))))) (i # calls)"
      using t(6) res v s(2) by simp
  qed
qed

lemma history_empty [simp]: "history Map.empty k = Some []"
  by (simp add: history_def)

lemma tally_0 [simp]: "tally 0 = None"
  by (simp add: tally_def)

lemma fresh_all_success:
  assumes "Cache_init server = Inr self" "invoke_all P self calls = (results, self')"
    "\<forall>r\<in>set results. \<not> isl r"
  shows "\<exists>c' xs. redis self' = Redis c'
           \<and> db c' ''Cache.store'' = tally (length calls)
           \<and> map (\<lambda>i. utf8_encode (str_tuple P (positional i))) calls = map Inr xs
           \<and> history (db c') ''Cache.store:inputs'' = Some xs
           \<and> history (db c') ''Cache.store:outputs'' = Some (map (\<lambda>i. key_bytes (random i)) calls)
           \<and> results = map (\<lambda>i. Inr (PStr (str_uuid (uuid4 (random i))))) calls"
proof -
  from Cache_init_fresh [OF assms(1)] obtain c where
    c: "redis self = Redis c" "db c = Map.empty" by blast
  have "db c ''Cache.store'' = tally 0" "history (db c) ''Cache.store:inputs'' = Some []"
    "history (db c) ''Cache.store:outputs'' = Some []"
    using c(2) by simp_all
  from invoke_all_success [OF c(1) this assms(2,3)] show ?thesis by simp
qed

subsection \<open>The commands of one call\<close>






subsection \<open>\<^verbatim>\<open>replay\<close> after calls that all return\<close>

lemma Cache_store_recordable:
  assumes "redis self = Redis c" "Cache_store P r self args kw = (Inr v, self')"
  shows "\<exists>c'. redis self' = Redis c' \<and> recordable (db c')"
proof -
  from Cache_store_success [OF assms] obtain c' n x y ins outs where
    "redis self' = Redis c'"
    "db c' = (db c)(''Cache.store'' \<mapsto> RStr (repr_int n),
                    ''Cache.store:inputs'' \<mapsto> RList ins,
                    key_bytes r \<mapsto> RStr y,
                    ''Cache.store:outputs'' \<mapsto> RList outs)"
    by blast
  then show ?thesis
    by (auto simp: recordable_def history_def stored_int_repr_int)
qed

lemma invoke_all_returns:
  assumes "redis self = Redis c" "recordable (db c)"
    "\<forall>i\<in>set calls. outages i = [] \<and> named i = [] \<and> (\<exists>v b. positional i = [v] \<and> encode v = Inr b)"
  shows "\<forall>r\<in>set (fst (invoke_all P self calls)). \<not> isl r"
  using assms
proof (induction calls arbitrary: self c)
  case Nil
  then show ?case by simp
next
  case (Cons i calls)
  from Cons.prems(3) obtain v b where
    i: "outages i = []" "named i = []" "positional i = [v]" "encode v = Inr b" by auto
  let ?c = "c\<lparr>link := []\<rparr>"
  have r: "redis (on_link [] self) = Redis ?c" "recordable (db ?c)" "link ?c = []"
    using Cons.prems(1,2) by simp_all
  from Cache_store_returns [OF r i(4), of P "random i"] obtain self1 where
    s: "Cache_store P (random i) (on_link [] self) [v] []
          = (Inr (PStr (str_uuid (uuid4 (random i)))), self1)" by blast
  then have inv: "invoke P self i = (Inr (PStr (str_uuid (uuid4 (random i)))), self1)"
    using i by (simp add: invoke_def)
  from Cache_store_recordable [OF r(1) s] obtain c1 where
    c1: "redis self1 = Redis c1" "recordable (db c1)" by blast
  have "\<forall>r\<in>set (fst (invoke_all P self1 calls)). \<not> isl r"
    using Cons.IH [OF c1] Cons.prems(3) by simp
  with inv show ?case
    by (simp split: prod.splits)
qed

lemma decode_encoded:
  assumes "map (\<lambda>i. utf8_encode (f i)) calls = map Inr xs"
  shows "map utf8_decode xs = map Inr (map f calls)"
  using assms
proof (induction calls arbitrary: xs)
  case Nil
  then show ?case by simp
next
  case (Cons i calls)
  then obtain x xs' where "xs = x # xs'" "utf8_encode (f i) = Inr x"
    "map (\<lambda>i. utf8_encode (f i)) calls = map Inr xs'"
    by (cases xs) auto
  with Cons.IH [of xs'] show ?case
    by (simp add: utf8_roundtrip)
qed

lemma decode_keys:
  "map utf8_decode (map (\<lambda>i. key_bytes (random i)) calls)
     = map Inr (map (\<lambda>i. str_uuid (uuid4 (random i))) calls)"
  by (rule decode_encoded) simp

lemma lines_of_calls:
  "map (\<lambda>(x, y). lit ''Cache.store'' @ lit ''(*'' @ x @ lit '') -> '' @ y)
       (zip (map (\<lambda>i. str_tuple P (positional i)) calls)
            (map (\<lambda>i. str_uuid (uuid4 (random i))) calls))
     = map (call_line P) calls"
  by (induction calls) (simp_all add: call_line_def lit_def)

lemma replay_after_all_success:
  assumes "Cache_init server = Inr self" "invoke_all P self calls = (results, self')"
    "\<forall>r\<in>set results. \<not> isl r" "calls \<noteq> []"
  shows "replay (BoundMethod (Some (redis (on_link [] self'))) (lit ''Cache.store''))
         = (Inr (), (lit ''Cache.store'' @ lit '' was called ''
                       @ lit (repr_int (int (length calls))) @ lit '' times:'')
                    # map (call_line P) calls)"
proof -
  from fresh_all_success [OF assms(1,2,3)] obtain c' xs where
    f: "redis self' = Redis c'" "db c' ''Cache.store'' = tally (length calls)"
      "map (\<lambda>i. utf8_encode (str_tuple P (positional i))) calls = map Inr xs"
      "history (db c') ''Cache.store:inputs'' = Some xs"
      "history (db c') ''Cache.store:outputs'' = Some (map (\<lambda>i. key_bytes (random i)) calls)"
    by blast
  let ?r = "c'\<lparr>link := []\<rparr>"
  have h: "redis (on_link [] self') = Redis ?r" using f(1) by simp
  have n: "int (length calls) \<noteq> 0" using assms(4) by simp
  have t: "db ?r ''Cache.store'' = Some (RStr (repr_int (int (length calls))))"
    using f(2) assms(4) by (simp add: tally_def)
  have l: "replay_loop (lit ''Cache.store'') (zip xs (map (\<lambda>i. key_bytes (random i)) calls))
      = (Inr (), map (call_line P) calls)"
    using replay_loop_decoded [OF decode_encoded [OF f(3)] decode_keys [of calls],
        of "lit ''Cache.store''"]
    by (simp only: lines_of_calls)
  have "replay (BoundMethod (Some (Redis ?r)) (lit ''Cache.store'')) =
           (case replay_loop (lit ''Cache.store'') (zip xs (map (\<lambda>i. key_bytes (random i)) calls)) of
              (res, ls) \<Rightarrow> (res, (lit ''Cache.store'' @ lit '' was called ''
                  @ lit (repr_int (int (length calls))) @ lit '' times:'') # ls))"
    by (rule replay_lists [OF _ enc_name enc_in_key enc_out_key t int_literal_repr_int n])
       (simp_all add: f(4,5))
  then show ?thesis
    by (simp add: h l)
qed

subsection \<open>Particular values\<close>

lemma recordable_tally:
  assumes "d ''Cache.store'' = tally m" "history d ''Cache.store:inputs'' = Some ins"
    "history d ''Cache.store:outputs'' = Some outs"
  shows "recordable d"
  using assms by (simp add: recordable_def tally_def stored_int_repr_int)

lemma str_tuple_a: "str_tuple (\<lambda>_. True) [PStr (lit ''a'')] = [40, 39, 97, 39, 44, 41]"
  by (simp add: str_tuple_def str_repr_def quote_of_def esc_char_def lit_def)

lemma str_tuple_b: "str_tuple (\<lambda>_. True) [PStr (lit ''b'')] = [40, 39, 98, 39, 44, 41]"
  by (simp add: str_tuple_def str_repr_def quote_of_def esc_char_def lit_def)

lemma encode_a: "encode (PStr (lit ''a'')) = Inr ''a''"
  using utf8_encode_lit [of "''a''"] by simp

lemma encode_b: "encode (PStr (lit ''b'')) = Inr ''b''"
  using utf8_encode_lit [of "''b''"] by simp

lemma repr_int_2: "repr_int 2 = ''2''"
  by (simp add: repr_int_def digits.simps [of 2] char_of_eq_iff)

lemma repr_int_3: "repr_int 3 = ''3''"
  by (simp add: repr_int_def digits.simps [of 3] char_of_eq_iff)

text \<open>A call that loses the connection at its third round trip, the \<^verbatim>\<open>set\<close>.\<close>

lemma invoke_set_fails:
  assumes "encode v = Inr b"
  shows "\<exists>x c1 self1. utf8_encode (str_tuple P [v]) = Inr x
     \<and> invoke P \<lparr>redis = Redis \<lparr>db = Map.empty, link = [], wire = w\<rparr>\<rparr>
          \<lparr>random = r, outages = [False, False, True], positional = [v], named = []\<rparr>
        = (Inl ConnectionError, self1)
     \<and> redis self1 = Redis c1
     \<and> db c1 ''Cache.store'' = tally 1
     \<and> history (db c1) ''Cache.store:inputs'' = Some [x]
     \<and> history (db c1) ''Cache.store:outputs'' = Some []"
proof -
  from str_tuple_encodable [OF assms, of P] obtain x where
    x: "utf8_encode (str_tuple P [v]) = Inr x" by blast
  show ?thesis
    using x assms encode_renderable [OF assms]
    by (simp add: invoke_def Cache_store_unfold redis_incr_def redis_rpush_def redis_set_def
        send_eq up_def with_conn_def history_def tally_def on_link_def)
qed

subsection \<open>Integers too long to write out\<close>

lemma digits_length: "10 ^ k \<le> n \<Longrightarrow> k < length (digits n)"
proof (induction k arbitrary: n)
  case 0
  then show ?case using digits_nonempty [of n] by (cases "digits n") auto
next
  case (Suc k)
  have "(10::nat) \<le> 10 * 10 ^ k" by simp
  also have "\<dots> \<le> n" using Suc.prems by simp
  finally have "10 \<le> n" .
  moreover have "10 ^ k \<le> n div 10"
    using Suc.prems by (simp add: less_eq_div_iff_mult_less_eq mult.commute)
  ultimately have "10 \<le> n" "10 ^ k \<le> n div 10" .
  with Suc.IH [of "n div 10"] show ?case
    by (subst digits.simps) simp
qed

lemma too_long_power: "max_str_digits \<le> k \<Longrightarrow> too_long (10 ^ k)"
proof -
  assume a: "max_str_digits \<le> k"
  have "nat \<bar>(10::int) ^ k\<bar> = 10 ^ k"
    by (simp add: nat_power_eq)
  moreover have "k < length (digits (10 ^ k))"
    by (rule digits_length) simp
  ultimately show ?thesis
    using a unfolding too_long_def by (simp only:)
qed

lemma digits_short: "n < 10 ^ k \<Longrightarrow> 0 < k \<Longrightarrow> length (digits n) \<le> k"
proof (induction k arbitrary: n)
  case 0
  then show ?case by simp
next
  case (Suc k)
  show ?case
  proof (cases "n < 10")
    case True
    then show ?thesis by (subst digits.simps) simp
  next
    case False
    then have "0 < k" using Suc.prems by (cases k) auto
    moreover have "n div 10 < 10 ^ k" using Suc.prems by auto
    ultimately have "length (digits (n div 10)) \<le> k" by (rule Suc.IH [rotated])
    with False show ?thesis by (subst digits.simps) simp
  qed
qed

lemma small_not_too_long: "\<bar>i\<bar> < 10000 \<Longrightarrow> \<not> too_long i"
proof -
  assume "\<bar>i\<bar> < 10000"
  then have "nat \<bar>i\<bar> < 10 ^ 4" by simp
  from digits_short [OF this] show ?thesis
    by (simp add: too_long_def max_str_digits_def)
qed

subsection \<open>One call, command by command\<close>


subsection \<open>More particular values\<close>





lemma upt4: "[0..<4] = [0, 1, 2, 3]"
  by (simp add: upt_rec [of 0] upt_rec [of 1] upt_rec [of 2] upt_rec [of 3] upt_rec [of "Suc _"])

lemma hex_fixed_d800: "hex_fixed 4 0xD800 = [100, 56, 48, 48]"
  unfolding hex_fixed_def upt4 by (simp add: hexdigit_def)

lemma str_tuple_surrogate:
  "\<exists>x. utf8_encode (str_tuple (\<lambda>_. False) [PStr [0xD800]]) = Inr x"
  unfolding utf8_encode_scalar
  by (simp add: str_tuple_def str_repr_def quote_of_def esc_char_def hex_fixed_d800 lit_def
      small_scalar)

lemma encode_surrogate: "encode (PStr [0xD800]) = Inl UnicodeEncodeError"
  by (simp add: utf8_char_def)

subsection \<open>What one call sends, whatever its arguments\<close>


section \<open>The claims\<close>

text \<open>
  C1. On a fresh cache \<^verbatim>\<open>store("foo")\<close> returns a key; \<^verbatim>\<open>get\<close> of the key returns the
  bytes \<^verbatim>\<open>foo\<close>, and \<^verbatim>\<open>get\<close> with \<^verbatim>\<open>int\<close> raises \<^verbatim>\<open>ValueError\<close>. But \<^verbatim>\<open>get_str\<close>
  applies \<^verbatim>\<open>str\<close> to the bytes, and returns the six characters \<^verbatim>\<open>b'foo'\<close>, not the
  text \<^verbatim>\<open>foo\<close>.
\<close>

theorem get_str_of_foo:
  "\<exists>self self1 key.
      Cache_init \<lparr>db = d, link = [], wire = w\<rparr> = Inr self
    \<and> Cache_store printable r self [PStr (lit ''foo'')] [] = (Inr (PStr key), self1)
    \<and> fst (Cache_get self1 key None) = Inr (PBytes ''foo'')
    \<and> fst (get_str self1 key) = Inr (PStr [98, 39, 102, 111, 111, 39])
    \<and> lit ''foo'' = [102, 111, 111]
    \<and> fst (get_int self1 key) = Inl ValueError"
proof -
  let ?c = "\<lparr>db = Map.empty, link = [], wire = w @ [FLUSHDB]\<rparr>"
  let ?self = "\<lparr>redis = Redis ?c\<rparr>"
  let ?key = "str_uuid (uuid4 r)"
  have "redis ?self = Redis ?c" "recordable (db ?c)" "link ?c = []"
    by simp_all
  from store_then_get [OF this encode_foo, of printable r]
  obtain self1 where s: "Cache_store printable r ?self [PStr (lit ''foo'')] []
        = (Inr (PStr ?key), self1)"
    and g: "\<forall>m. fst (Cache_get self1 ?key m)
        = (case m of None \<Rightarrow> Inr (PBytes ''foo'') | Some f \<Rightarrow> f (Some ''foo''))"
    by blast
  have 1: "fst (Cache_get self1 ?key None) = Inr (PBytes ''foo'')"
    by (simp add: g)
  have 2: "fst (get_str self1 ?key) = Inr (PStr [98, 39, 102, 111, 111, 39])"
    by (simp add: get_str_def g py_str_def bytes_repr_foo)
  have 3: "fst (get_int self1 ?key) = Inl ValueError"
    by (simp add: get_int_def g py_int_def int_literal_foo)
  show ?thesis
    by (intro exI conjI) (rule Cache_init_idle s 1 2 3 lit_foo)+
qed



text \<open>
  C3. Take a cache as \<^verbatim>\<open>Cache()\<close> builds it and \<open>n\<close> calls of the decorated \<^verbatim>\<open>store\<close>
  that all returned. Then the list of inputs and the list of outputs both have \<open>n\<close>
  elements; the outputs are, in call order, the keys the calls returned (as the bytes the
  client sends for them), and the inputs are \<^verbatim>\<open>str(args)\<close> of the calls.
\<close>

theorem history_after_successes:
  assumes "Cache_init server = Inr self"
    and "invoke_all printable self calls = (results, self')"
    and "\<forall>r\<in>set results. \<not> isl r"
  shows "\<exists>ins outs keys.
           history (database self') ''Cache.store:inputs'' = Some ins
         \<and> history (database self') ''Cache.store:outputs'' = Some outs
         \<and> length ins = length calls \<and> length outs = length calls
         \<and> results = map (\<lambda>k. Inr (PStr k)) keys
         \<and> map utf8_encode keys = map Inr outs
         \<and> map (\<lambda>i. utf8_encode (str_tuple printable (positional i))) calls = map Inr ins"
proof -
  from fresh_all_success [OF assms] obtain c' xs where
    f: "redis self' = Redis c'"
      "map (\<lambda>i. utf8_encode (str_tuple printable (positional i))) calls = map Inr xs"
      "history (db c') ''Cache.store:inputs'' = Some xs"
      "history (db c') ''Cache.store:outputs'' = Some (map (\<lambda>i. key_bytes (random i)) calls)"
      "results = map (\<lambda>i. Inr (PStr (str_uuid (uuid4 (random i))))) calls"
    by blast
  let ?keys = "map (\<lambda>i. str_uuid (uuid4 (random i))) calls"
  let ?outs = "map (\<lambda>i. key_bytes (random i)) calls"
  have l: "length xs = length calls"
    using arg_cong [OF f(2), of length] by simp
  show ?thesis
  proof (intro exI conjI)
    show "history (database self') ''Cache.store:inputs'' = Some xs"
      using f(1,3) by (simp add: database_def)
    show "history (database self') ''Cache.store:outputs'' = Some ?outs"
      using f(1,4) by (simp add: database_def)
    show "length xs = length calls" by (rule l)
    show "length ?outs = length calls" by simp
    show "results = map (\<lambda>k. Inr (PStr k)) ?keys" using f(5) by (simp add: comp_def)
    show "map utf8_encode ?keys = map Inr ?outs" by (simp add: comp_def)
    show "map (\<lambda>i. utf8_encode (str_tuple printable (positional i))) calls = map Inr xs"
      by (rule f(2))
  qed
qed

text \<open>
  The theorem at work on the calls \<^verbatim>\<open>store(10)\<close>, \<^verbatim>\<open>store(20)\<close>, \<^verbatim>\<open>store(30)\<close>, which all
  return.
\<close>

theorem history_after_successes_witness:
  "Cache_init \<lparr>db = Map.empty, link = [], wire = []\<rparr>
     = Inr \<lparr>redis = Redis \<lparr>db = Map.empty, link = [], wire = [] @ [FLUSHDB]\<rparr>\<rparr>
   \<and> fst (invoke_all (\<lambda>_. True) \<lparr>redis = Redis \<lparr>db = Map.empty, link = [], wire = [] @ [FLUSHDB]\<rparr>\<rparr>
         [\<lparr>random = 1, outages = [], positional = [PInt 10], named = []\<rparr>,
          \<lparr>random = 2, outages = [], positional = [PInt 20], named = []\<rparr>,
          \<lparr>random = 3, outages = [], positional = [PInt 30], named = []\<rparr>])
       = [Inr (PStr (str_uuid (uuid4 1))), Inr (PStr (str_uuid (uuid4 2))),
          Inr (PStr (str_uuid (uuid4 3)))]
   \<and> (\<exists>ins outs keys.
         history (database (snd (invoke_all (\<lambda>_. True)
             \<lparr>redis = Redis \<lparr>db = Map.empty, link = [], wire = [] @ [FLUSHDB]\<rparr>\<rparr>
             [\<lparr>random = 1, outages = [], positional = [PInt 10], named = []\<rparr>,
              \<lparr>random = 2, outages = [], positional = [PInt 20], named = []\<rparr>,
              \<lparr>random = 3, outages = [], positional = [PInt 30], named = []\<rparr>])))
           ''Cache.store:inputs'' = Some ins
       \<and> history (database (snd (invoke_all (\<lambda>_. True)
             \<lparr>redis = Redis \<lparr>db = Map.empty, link = [], wire = [] @ [FLUSHDB]\<rparr>\<rparr>
             [\<lparr>random = 1, outages = [], positional = [PInt 10], named = []\<rparr>,
              \<lparr>random = 2, outages = [], positional = [PInt 20], named = []\<rparr>,
              \<lparr>random = 3, outages = [], positional = [PInt 30], named = []\<rparr>])))
           ''Cache.store:outputs'' = Some outs
       \<and> length ins = 3 \<and> length outs = 3
       \<and> [Inr (PStr (str_uuid (uuid4 1))), Inr (PStr (str_uuid (uuid4 2))),
          Inr (PStr (str_uuid (uuid4 3)))] = map (\<lambda>k. Inr (PStr k) :: result) keys
       \<and> map utf8_encode keys = map Inr outs)"
proof -
  let ?fresh = "\<lparr>redis = Redis \<lparr>db = Map.empty, link = [], wire = [] @ [FLUSHDB]\<rparr>\<rparr>"
  let ?calls = "[\<lparr>random = 1, outages = [], positional = [PInt 10], named = []\<rparr>,
          \<lparr>random = 2, outages = [], positional = [PInt 20], named = []\<rparr>,
          \<lparr>random = 3, outages = [], positional = [PInt 30], named = []\<rparr>]"
  let ?run = "invoke_all (\<lambda>_. True) ?fresh ?calls"
  have a: "Cache_init \<lparr>db = Map.empty, link = [], wire = []\<rparr> = Inr ?fresh"
    by (rule Cache_init_idle)
  have b: "?run = (fst ?run, snd ?run)" by simp
  have c: "\<forall>r\<in>set (fst ?run). \<not> isl r"
    by (rule invoke_all_returns [of _ "\<lparr>db = Map.empty, link = [], wire = [] @ [FLUSHDB]\<rparr>"])
       (simp_all add: small_not_too_long)
  from fresh_all_success [OF a b c]
  have r: "fst ?run = [Inr (PStr (str_uuid (uuid4 1))), Inr (PStr (str_uuid (uuid4 2))),
          Inr (PStr (str_uuid (uuid4 3)))]"
    by (auto simp del: invoke_all.simps)
  from history_after_successes [OF a b c] obtain ins outs keys where
    h: "history (database (snd ?run)) ''Cache.store:inputs'' = Some ins"
    "history (database (snd ?run)) ''Cache.store:outputs'' = Some outs"
    "length ins = 3" "length outs = 3"
    "fst ?run = map (\<lambda>k. Inr (PStr k)) keys"
    "map utf8_encode keys = map Inr outs"
    by (auto simp del: invoke_all.simps)
  note k = h(5) [unfolded r]
  show ?thesis
    by (intro conjI exI [of _ ins] exI [of _ outs] exI [of _ keys]) (rule a r h k)+
qed

text \<open>
  C4. \<^verbatim>\<open>store(v)\<close> followed by \<^verbatim>\<open>get\<close> without a decoder gives back the bytes the client
  sends for \<^verbatim>\<open>v\<close>, for every byte string, every float, every integer of at most 4300
  decimal digits and every text that has a UTF-8 form, on a cache whose three
  bookkeeping keys are usable and whose connection holds. Those are the values
  \<open>storable\<close>; the client encodes them and no others (lemma \<open>encode_defined\<close>).
\<close>

theorem store_get_round_trip:
  assumes "redis self = Redis c" and "recordable (db c)" and "link c = []"
    and "storable v"
  shows "\<exists>b key self'. encode v = Inr b
           \<and> Cache_store printable r self [v] [] = (Inr (PStr key), self')
           \<and> fst (Cache_get self' key None) = Inr (PBytes b)"
proof -
  from assms(4) obtain b where b: "encode v = Inr b"
    unfolding encode_defined [symmetric] by blast
  from store_then_get [OF assms(1-3) b, of printable r] b show ?thesis
    by auto
qed

theorem store_get_round_trip_witness:
  "redis \<lparr>redis = Redis \<lparr>db = Map.empty, link = [], wire = [FLUSHDB]\<rparr>\<rparr>
     = Redis \<lparr>db = Map.empty, link = [], wire = [FLUSHDB]\<rparr>
   \<and> recordable (db \<lparr>db = Map.empty, link = [], wire = [FLUSHDB]\<rparr>)
   \<and> link \<lparr>db = Map.empty, link = [], wire = [FLUSHDB]\<rparr> = []
   \<and> storable (PInt (- 12))
   \<and> (\<exists>key self'.
         Cache_store (\<lambda>_. True) 5 \<lparr>redis = Redis \<lparr>db = Map.empty, link = [], wire = [FLUSHDB]\<rparr>\<rparr>
            [PInt (- 12)] [] = (Inr (PStr key), self')
       \<and> fst (Cache_get self' key None) = Inr (PBytes ''-12''))"
proof -
  have e: "encode (PInt (- 12)) = Inr ''-12''"
    by (simp add: small_not_too_long repr_int_def digits.simps [of 12] digits.simps [of "Suc 0"]
        char_of_eq_iff)
  have 1: "redis \<lparr>redis = Redis \<lparr>db = Map.empty, link = [], wire = [FLUSHDB]\<rparr>\<rparr>
     = Redis \<lparr>db = Map.empty, link = [], wire = [FLUSHDB]\<rparr>"
    and 2: "recordable (db \<lparr>db = Map.empty, link = [], wire = [FLUSHDB]\<rparr>)"
    and 3: "link \<lparr>db = Map.empty, link = [], wire = [FLUSHDB]\<rparr> = []"
    and 4: "storable (PInt (- 12))"
    by (simp_all add: small_not_too_long)
  from store_get_round_trip [OF 1 2 3 4, of "\<lambda>_. True" 5] obtain b key self' where
    "encode (PInt (- 12)) = Inr b"
    "Cache_store (\<lambda>_. True) 5 \<lparr>redis = Redis \<lparr>db = Map.empty, link = [], wire = [FLUSHDB]\<rparr>\<rparr>
        [PInt (- 12)] [] = (Inr (PStr key), self')"
    "fst (Cache_get self' key None) = Inr (PBytes b)"
    by blast
  with e 1 2 3 4 show ?thesis
    by auto
qed

text \<open>
  Two values of the supported types for which there is nothing to get: on a fresh cache
  with a working connection \<^verbatim>\<open>store(10 ** 4300)\<close> raises \<^verbatim>\<open>ValueError\<close>, at \<^verbatim>\<open>str(args)\<close>,
  and \<^verbatim>\<open>store('\ud800')\<close>, a text of one lone surrogate, raises \<^verbatim>\<open>UnicodeEncodeError\<close>,
  at the \<^verbatim>\<open>set\<close>.
\<close>

theorem store_refuses_values:
  "fst (Cache_store (\<lambda>_. False) 1 \<lparr>redis = Redis \<lparr>db = Map.empty, link = [], wire = [FLUSHDB]\<rparr>\<rparr>
          [PInt (10 ^ 4300)] []) = Inl ValueError
   \<and> fst (Cache_store (\<lambda>_. False) 1 \<lparr>redis = Redis \<lparr>db = Map.empty, link = [], wire = [FLUSHDB]\<rparr>\<rparr>
          [PStr [0xD800]] []) = Inl UnicodeEncodeError"
proof -
  define h :: int where "h = 10 ^ 4300"
  have "too_long h"
    unfolding h_def by (rule too_long_power) (simp add: max_str_digits_def)
  then have a: "fst (Cache_store (\<lambda>_. False) 1
        \<lparr>redis = Redis \<lparr>db = Map.empty, link = [], wire = [FLUSHDB]\<rparr>\<rparr> [PInt h] []) = Inl ValueError"
    by (simp add: Cache_store_unfold redis_incr_def send_eq)
  obtain x where "utf8_encode (str_tuple (\<lambda>_. False) [PStr [0xD800]]) = Inr x"
    using str_tuple_surrogate by blast
  then have b: "fst (Cache_store (\<lambda>_. False) 1
        \<lparr>redis = Redis \<lparr>db = Map.empty, link = [], wire = [FLUSHDB]\<rparr>\<rparr> [PStr [0xD800]] [])
      = Inl UnicodeEncodeError"
    using encode_surrogate
    by (simp add: Cache_store_unfold redis_incr_def redis_rpush_def redis_set_def send_eq)
  from a [unfolded h_def] b show ?thesis
    by (rule conjI)
qed

text \<open>
  C5, as the code has it. Take a cache as \<^verbatim>\<open>Cache()\<close> builds it and \<open>k > 0\<close> calls of the
  decorated \<^verbatim>\<open>store\<close> that all returned. Then \<^verbatim>\<open>replay\<close>, its round trips succeeding,
  prints the header with the name and the count \<open>k\<close>, and then exactly \<open>k\<close> lines, the
  \<open>i\<close>-th being \<^verbatim>\<open>Cache.store(*<str(args)>) -> <key>\<close> of the \<open>i\<close>-th call.
\<close>

theorem replay_after_successes:
  assumes "Cache_init server = Inr self"
    and "invoke_all printable self calls = (results, self')"
    and "\<forall>r\<in>set results. \<not> isl r" and "calls \<noteq> []"
  shows "replay (BoundMethod (Some (redis (on_link [] self'))) (lit ''Cache.store''))
         = (Inr (), (lit ''Cache.store'' @ lit '' was called ''
                       @ lit (repr_int (int (length calls))) @ lit '' times:'')
                    # map (call_line printable) calls)"
  using assms by (rule replay_after_all_success)

text \<open>
  The theorem at work on the calls \<^verbatim>\<open>store(10)\<close>, \<^verbatim>\<open>store(20)\<close>, \<^verbatim>\<open>store(30)\<close>: a header
  and three lines, in call order.
\<close>

theorem replay_after_successes_witness:
  "Cache_init \<lparr>db = Map.empty, link = [], wire = []\<rparr>
     = Inr \<lparr>redis = Redis \<lparr>db = Map.empty, link = [], wire = [] @ [FLUSHDB]\<rparr>\<rparr>
   \<and> fst (invoke_all (\<lambda>_. True) \<lparr>redis = Redis \<lparr>db = Map.empty, link = [], wire = [] @ [FLUSHDB]\<rparr>\<rparr>
         [\<lparr>random = 1, outages = [], positional = [PInt 10], named = []\<rparr>,
          \<lparr>random = 2, outages = [], positional = [PInt 20], named = []\<rparr>,
          \<lparr>random = 3, outages = [], positional = [PInt 30], named = []\<rparr>])
       = [Inr (PStr (str_uuid (uuid4 1))), Inr (PStr (str_uuid (uuid4 2))),
          Inr (PStr (str_uuid (uuid4 3)))]
   \<and> replay (BoundMethod (Some (redis (on_link [] (snd (invoke_all (\<lambda>_. True)
         \<lparr>redis = Redis \<lparr>db = Map.empty, link = [], wire = [] @ [FLUSHDB]\<rparr>\<rparr>
         [\<lparr>random = 1, outages = [], positional = [PInt 10], named = []\<rparr>,
          \<lparr>random = 2, outages = [], positional = [PInt 20], named = []\<rparr>,
          \<lparr>random = 3, outages = [], positional = [PInt 30], named = []\<rparr>])))))
        (lit ''Cache.store''))
       = (Inr (),
          [lit ''Cache.store'' @ lit '' was called '' @ lit ''3'' @ lit '' times:'',
           call_line (\<lambda>_. True) \<lparr>random = 1, outages = [], positional = [PInt 10], named = []\<rparr>,
           call_line (\<lambda>_. True) \<lparr>random = 2, outages = [], positional = [PInt 20], named = []\<rparr>,
           call_line (\<lambda>_. True) \<lparr>random = 3, outages = [], positional = [PInt 30], named = []\<rparr>])"
proof -
  let ?fresh = "\<lparr>redis = Redis \<lparr>db = Map.empty, link = [], wire = [] @ [FLUSHDB]\<rparr>\<rparr>"
  let ?calls = "[\<lparr>random = 1, outages = [], positional = [PInt 10], named = []\<rparr>,
          \<lparr>random = 2, outages = [], positional = [PInt 20], named = []\<rparr>,
          \<lparr>random = 3, outages = [], positional = [PInt 30], named = []\<rparr>]"
  let ?run = "invoke_all (\<lambda>_. True) ?fresh ?calls"
  have a: "Cache_init \<lparr>db = Map.empty, link = [], wire = []\<rparr> = Inr ?fresh"
    by (rule Cache_init_idle)
  have b: "?run = (fst ?run, snd ?run)" by simp
  have c: "\<forall>r\<in>set (fst ?run). \<not> isl r"
    by (rule invoke_all_returns [of _ "\<lparr>db = Map.empty, link = [], wire = [] @ [FLUSHDB]\<rparr>"])
       (simp_all add: small_not_too_long)
  have d: "?calls \<noteq> []" by simp
  from fresh_all_success [OF a b c]
  have r: "fst ?run = [Inr (PStr (str_uuid (uuid4 1))), Inr (PStr (str_uuid (uuid4 2))),
          Inr (PStr (str_uuid (uuid4 3)))]"
    by (auto simp del: invoke_all.simps)
  have "replay (BoundMethod (Some (redis (on_link [] (snd ?run)))) (lit ''Cache.store''))
       = (Inr (),
          [lit ''Cache.store'' @ lit '' was called '' @ lit ''3'' @ lit '' times:'',
           call_line (\<lambda>_. True) \<lparr>random = 1, outages = [], positional = [PInt 10], named = []\<rparr>,
           call_line (\<lambda>_. True) \<lparr>random = 2, outages = [], positional = [PInt 20], named = []\<rparr>,
           call_line (\<lambda>_. True) \<lparr>random = 3, outages = [], positional = [PInt 30], named = []\<rparr>])"
    unfolding replay_after_successes [OF a b c d] by (simp add: repr_int_3)
  with a r show ?thesis
    by (intro conjI)
qed

text \<open>
  C5 as stated fails. Of two calls on a fresh cache the first, \<^verbatim>\<open>store("a")\<close>, loses the
  connection at its \<^verbatim>\<open>set\<close>, after its input was recorded, and raises; the second,
  \<^verbatim>\<open>store("b")\<close>, returns a key. \<^verbatim>\<open>replay\<close> prints one line, and the line shows the
  argument \<^verbatim>\<open>('a',)\<close> of the failed call beside the key the call \<^verbatim>\<open>store("b")\<close> returned.
\<close>

theorem replay_pairs_by_position:
  "fst (invoke_all (\<lambda>_. True) \<lparr>redis = Redis \<lparr>db = Map.empty, link = [], wire = [FLUSHDB]\<rparr>\<rparr>
      [\<lparr>random = 1, outages = [False, False, True], positional = [PStr (lit ''a'')], named = []\<rparr>,
       \<lparr>random = 2, outages = [], positional = [PStr (lit ''b'')], named = []\<rparr>])
     = [Inl ConnectionError, Inr (PStr (str_uuid (uuid4 2)))]
   \<and> replay (BoundMethod (Some (redis (on_link [] (snd (invoke_all (\<lambda>_. True)
        \<lparr>redis = Redis \<lparr>db = Map.empty, link = [], wire = [FLUSHDB]\<rparr>\<rparr>
        [\<lparr>random = 1, outages = [False, False, True], positional = [PStr (lit ''a'')], named = []\<rparr>,
         \<lparr>random = 2, outages = [], positional = [PStr (lit ''b'')], named = []\<rparr>])))))
       (lit ''Cache.store''))
     = (Inr (),
        [lit ''Cache.store'' @ lit '' was called '' @ lit ''2'' @ lit '' times:'',
         lit ''Cache.store'' @ lit ''(*'' @ [40, 39, 97, 39, 44, 41] @ lit '') -> ''
           @ str_uuid (uuid4 2)])
   \<and> str_tuple (\<lambda>_. True) [PStr (lit ''a'')] = [40, 39, 97, 39, 44, 41]
   \<and> str_tuple (\<lambda>_. True) [PStr (lit ''b'')] = [40, 39, 98, 39, 44, 41]"
proof -
  let ?P = "\<lambda>_::nat. True"
  let ?fresh = "\<lparr>redis = Redis \<lparr>db = Map.empty, link = [], wire = [FLUSHDB]\<rparr>\<rparr>"
  let ?a = "\<lparr>random = 1, outages = [False, False, True], positional = [PStr (lit ''a'')], named = []\<rparr>"
  let ?b = "\<lparr>random = 2, outages = [], positional = [PStr (lit ''b'')], named = []\<rparr>"
  from invoke_set_fails [OF encode_a, of ?P "[FLUSHDB]" 1] obtain xa c1 self1 where
    1: "utf8_encode (str_tuple ?P [PStr (lit ''a'')]) = Inr xa"
      "invoke ?P ?fresh ?a = (Inl ConnectionError, self1)" "redis self1 = Redis c1"
      "db c1 ''Cache.store'' = tally 1"
      "history (db c1) ''Cache.store:inputs'' = Some [xa]"
      "history (db c1) ''Cache.store:outputs'' = Some []"
    by blast
  let ?c1 = "c1\<lparr>link := []\<rparr>"
  have r1: "redis (on_link [] self1) = Redis ?c1" "recordable (db ?c1)" "link ?c1 = []"
    using 1(3) recordable_tally [OF 1(4,5,6)] by simp_all
  from Cache_store_returns [OF r1 encode_b, of ?P 2] obtain self2 where
    "Cache_store ?P 2 (on_link [] self1) [PStr (lit ''b'')] []
       = (Inr (PStr (str_uuid (uuid4 2))), self2)" by blast
  then have 2: "invoke ?P self1 ?b = (Inr (PStr (str_uuid (uuid4 2))), self2)"
    by (simp add: invoke_def)
  from invoke_success [OF 1(3) 2 1(4,5,6)] obtain c2 xb where
    3: "redis self2 = Redis c2" "db c2 ''Cache.store'' = tally 2"
      "history (db c2) ''Cache.store:inputs'' = Some [xa, xb]"
      "history (db c2) ''Cache.store:outputs'' = Some [key_bytes 2]"
    by (auto simp: numeral_2_eq_2)
  have run: "invoke_all ?P ?fresh [?a, ?b]
      = ([Inl ConnectionError, Inr (PStr (str_uuid (uuid4 2)))], self2)"
    using 1(2) 2 by simp
  let ?r = "c2\<lparr>link := []\<rparr>"
  have t: "db ?r ''Cache.store'' = Some (RStr (repr_int 2))"
    using 3(2) by (simp add: tally_def)
  have dec: "map utf8_decode [xa] = map Inr [str_tuple ?P [PStr (lit ''a'')]]"
    "map utf8_decode [key_bytes 2] = map Inr [str_uuid (uuid4 2)]"
    using utf8_roundtrip [OF 1(1)] utf8_roundtrip [OF enc_key [of 2]] by simp_all
  have loop: "replay_loop (lit ''Cache.store'') (zip [xa, xb] [key_bytes 2])
      = (Inr (), [lit ''Cache.store'' @ lit ''(*'' @ str_tuple ?P [PStr (lit ''a'')]
                    @ lit '') -> '' @ str_uuid (uuid4 2)])"
    using replay_loop_decoded [OF dec, of "lit ''Cache.store''"] by simp
  have rl: "replay (BoundMethod (Some (Redis ?r)) (lit ''Cache.store'')) =
           (case replay_loop (lit ''Cache.store'') (zip [xa, xb] [key_bytes 2]) of
              (res, ls) \<Rightarrow> (res, (lit ''Cache.store'' @ lit '' was called ''
                  @ lit (repr_int 2) @ lit '' times:'') # ls))"
    by (rule replay_lists [OF _ enc_name enc_in_key enc_out_key t int_literal_repr_int])
       (simp_all add: 3(3,4))
  have h: "redis (on_link [] self2) = Redis ?r"
    using 3(1) by simp
  have "replay (BoundMethod (Some (redis (on_link [] self2))) (lit ''Cache.store''))
     = (Inr (),
        [lit ''Cache.store'' @ lit '' was called '' @ lit ''2'' @ lit '' times:'',
         lit ''Cache.store'' @ lit ''(*'' @ [40, 39, 97, 39, 44, 41] @ lit '') -> ''
           @ str_uuid (uuid4 2)])"
    unfolding h rl loop by (simp add: repr_int_2 str_tuple_a)
  then show ?thesis
    unfolding run by (simp add: str_tuple_a str_tuple_b)
qed

text \<open>
  C6. \<^verbatim>\<open>replay\<close> of \<^verbatim>\<open>None\<close>, of a callable without \<^verbatim>\<open>__self__\<close>, of a method whose
  receiver has no attribute \<^verbatim>\<open>_redis\<close>, or whose \<^verbatim>\<open>_redis\<close> is no instance of
  \<^verbatim>\<open>redis.Redis\<close>, prints nothing and returns without an error.
\<close>

theorem replay_without_store:
  "replay NoMethod = (Inr (), [])
   \<and> replay (Function name) = (Inr (), [])
   \<and> replay (BoundMethod None name) = (Inr (), [])
   \<and> replay (BoundMethod (Some NotRedis) name) = (Inr (), [])"
  by (simp add: replay_def)

text \<open>
  A handle that is a Redis client without a connection is not among these cases: it
  passes the \<^verbatim>\<open>isinstance\<close> test, and \<^verbatim>\<open>replay\<close> raises \<^verbatim>\<open>ConnectionError\<close> at its first
  command, \<^verbatim>\<open>exists\<close>.
\<close>

theorem replay_on_lost_connection:
  "replay (BoundMethod (Some (Redis \<lparr>db = Map.empty, link = [True], wire = []\<rparr>))
      (lit ''Cache.store'')) = (Inl ConnectionError, [])"
  by (simp add: replay_def redis_exists_def send_eq up_def)

text \<open>
  C7. When the counter of the operation reads zero for \<^verbatim>\<open>replay\<close> (the key is absent,
  or it holds a zero), \<^verbatim>\<open>replay\<close> prints nothing, not even the header, whether or not
  its round trips succeed; when they do, it returns without an error.
\<close>

theorem replay_zero_count:
  assumes "utf8_encode name = Inr k" and "counter (db r) k = Some 0"
  shows "snd (replay (BoundMethod (Some (Redis r)) name)) = []
       \<and> (link r = [] \<longrightarrow> replay (BoundMethod (Some (Redis r)) name) = (Inr (), []))"
  using replay_zero [OF assms] replay_zero_idle [OF assms] by simp

theorem replay_zero_count_witness:
  "utf8_encode (lit ''f'') = Inr ''f''
   \<and> counter (db \<lparr>db = [''f'' \<mapsto> RStr ''0''], link = [], wire = []\<rparr>) ''f'' = Some 0
   \<and> counter (db \<lparr>db = Map.empty, link = [True], wire = []\<rparr>) ''f'' = Some 0
   \<and> replay (BoundMethod (Some (Redis \<lparr>db = [''f'' \<mapsto> RStr ''0''], link = [], wire = []\<rparr>))
        (lit ''f'')) = (Inr (), [])
   \<and> snd (replay (BoundMethod (Some (Redis \<lparr>db = Map.empty, link = [True], wire = []\<rparr>))
        (lit ''f''))) = []"
proof -
  have 1: "utf8_encode (lit ''f'') = Inr ''f''"
    using utf8_encode_lit [of "''f''"] by simp
  have 2: "counter (db \<lparr>db = [''f'' \<mapsto> RStr ''0''], link = [], wire = []\<rparr>) ''f'' = Some 0"
    by (simp add: counter_def int_literal_def strip_def is_space_def is_digit_def)
  have 3: "counter (db \<lparr>db = Map.empty, link = [True], wire = []\<rparr>) ''f'' = Some 0"
    by (simp add: counter_def)
  from replay_zero_count [OF 1 2] replay_zero_count [OF 1 3] 1 2 3 show ?thesis
    by simp
qed

text \<open>
  C8. On a receiver whose \<^verbatim>\<open>_redis\<close> is no instance of \<^verbatim>\<open>redis.Redis\<close>, the wrapper of
  \<^verbatim>\<open>call_history\<close>, called with its positional arguments, returns \<^verbatim>\<open>None\<close> and leaves
  the receiver as it was, whatever the wrapped method is; the wrapper of \<^verbatim>\<open>count_calls\<close>
  does nothing but call the method; so \<^verbatim>\<open>Cache.store\<close> returns \<^verbatim>\<open>None\<close>, nothing
  stored and nothing counted.
\<close>

theorem decorators_without_store:
  assumes "redis self = NotRedis"
  shows "body (call_history printable method) self args [] = (Inr PNone, self)
       \<and> body (count_calls method) self args kwargs = body method self args kwargs
       \<and> Cache_store printable r self args [] = (Inr PNone, self)"
  using assms by (simp add: call_history_def count_calls_def Cache_store_def)

theorem decorators_without_store_witness:
  "redis \<lparr>redis = NotRedis\<rparr> = NotRedis
   \<and> body (call_history (\<lambda>_. True) (store 0)) \<lparr>redis = NotRedis\<rparr> [PInt 1] []
       = (Inr PNone, \<lparr>redis = NotRedis\<rparr>)
   \<and> body (count_calls (store 0)) \<lparr>redis = NotRedis\<rparr> [PInt 1] []
       = body (store 0) \<lparr>redis = NotRedis\<rparr> [PInt 1] []
   \<and> Cache_store (\<lambda>_. True) 0 \<lparr>redis = NotRedis\<rparr> [PInt 1] [] = (Inr PNone, \<lparr>redis = NotRedis\<rparr>)"
proof -
  have 1: "redis \<lparr>redis = NotRedis\<rparr> = NotRedis" by simp
  from decorators_without_store [OF 1, of "\<lambda>_. True" "store 0" "[PInt 1]" "[]" 0] 1
  show ?thesis by blast
qed

text \<open>
  Two invocations on a store that is not valid and connected, for which the decorators
  do something else. On a Redis client without a connection \<^verbatim>\<open>store(1)\<close> sends the
  increment and raises \<^verbatim>\<open>ConnectionError\<close>: the handle is an instance of \<^verbatim>\<open>redis.Redis\<close>,
  and neither decorator looks further. On a handle that is no Redis client the keyword
  call \<^verbatim>\<open>store(data=1)\<close> raises \<^verbatim>\<open>TypeError\<close>: \<^verbatim>\<open>count_calls\<close> passes the keyword on, and
  the wrapper of \<^verbatim>\<open>call_history\<close> takes positional arguments only.
\<close>

theorem decorators_on_lost_connection:
  "Cache_store (\<lambda>_. True) 1 \<lparr>redis = Redis \<lparr>db = Map.empty, link = [True], wire = []\<rparr>\<rparr>
      [PInt 1] []
     = (Inl ConnectionError,
        \<lparr>redis = Redis \<lparr>db = Map.empty, link = [], wire = [INCR ''Cache.store'']\<rparr>\<rparr>)
   \<and> Cache_store (\<lambda>_. True) 1 \<lparr>redis = NotRedis\<rparr> [] [(lit ''data'', PInt 1)]
     = (Inl TypeError, \<lparr>redis = NotRedis\<rparr>)"
proof (rule conjI)
  have "redis \<lparr>redis = Redis \<lparr>db = Map.empty, link = [True], wire = []\<rparr>\<rparr>
      = Redis \<lparr>db = Map.empty, link = [True], wire = []\<rparr>"
    by simp
  from Cache_store_unfold [OF this, of "\<lambda>_. True" 1 "[PInt 1]" "[]"]
  show "Cache_store (\<lambda>_. True) 1 \<lparr>redis = Redis \<lparr>db = Map.empty, link = [True], wire = []\<rparr>\<rparr>
      [PInt 1] []
     = (Inl ConnectionError,
        \<lparr>redis = Redis \<lparr>db = Map.empty, link = [], wire = [INCR ''Cache.store'']\<rparr>\<rparr>)"
    by (simp add: redis_incr_def send_eq up_def with_conn_def sent_def)
next
  show "Cache_store (\<lambda>_. True) 1 \<lparr>redis = NotRedis\<rparr> [] [(lit ''data'', PInt 1)]
     = (Inl TypeError, \<lparr>redis = NotRedis\<rparr>)"
    by (simp add: Cache_store_def count_calls_def call_history_def)
qed



text \<open>
  C10. For a key the store does not hold, \<^verbatim>\<open>get\<close> without a decoder returns \<^verbatim>\<open>None\<close>;
  with a decoder the decoder is applied to \<^verbatim>\<open>None\<close>: \<^verbatim>\<open>get_int\<close> raises
  \<^verbatim>\<open>TypeError\<close>, and \<^verbatim>\<open>get_str\<close> returns the text \<^verbatim>\<open>None\<close>.
\<close>

theorem get_absent_key:
  assumes "redis self = Redis c" and "up (link c)" and "utf8_encode key = Inr k"
    and "db c k = None"
  shows "fst (Cache_get self key None) = Inr PNone
       \<and> fst (get_int self key) = Inl TypeError
       \<and> fst (get_str self key) = Inr (PStr (lit ''None''))"
  using Cache_get_miss [OF assms]
  by (simp add: get_int_def get_str_def py_int_def py_str_def)

theorem get_absent_key_witness:
  "redis \<lparr>redis = Redis \<lparr>db = Map.empty, link = [], wire = []\<rparr>\<rparr>
     = Redis \<lparr>db = Map.empty, link = [], wire = []\<rparr>
   \<and> up (link \<lparr>db = Map.empty, link = [], wire = []\<rparr>)
   \<and> utf8_encode (lit ''k'') = Inr ''k''
   \<and> db \<lparr>db = Map.empty, link = [], wire = []\<rparr> ''k'' = None
   \<and> fst (Cache_get \<lparr>redis = Redis \<lparr>db = Map.empty, link = [], wire = []\<rparr>\<rparr> (lit ''k'') None)
       = Inr PNone
   \<and> fst (get_int \<lparr>redis = Redis \<lparr>db = Map.empty, link = [], wire = []\<rparr>\<rparr> (lit ''k''))
       = Inl TypeError
   \<and> fst (get_str \<lparr>redis = Redis \<lparr>db = Map.empty, link = [], wire = []\<rparr>\<rparr> (lit ''k''))
       = Inr (PStr (lit ''None''))"
proof -
  have 1: "redis \<lparr>redis = Redis \<lparr>db = Map.empty, link = [], wire = []\<rparr>\<rparr>
     = Redis \<lparr>db = Map.empty, link = [], wire = []\<rparr>"
    and 2: "up (link \<lparr>db = Map.empty, link = [], wire = []\<rparr>)"
    and 3: "utf8_encode (lit ''k'') = Inr ''k''"
    and 4: "db \<lparr>db = Map.empty, link = [], wire = []\<rparr> ''k'' = None"
    by (simp_all add: utf8_encode_lit)
  from get_absent_key [OF 1 2 3 4] 1 2 3 4 show ?thesis
    by blast
qed

end
